theory Spec2Isabelle
  imports Main
begin

section \<open>The value deserializers of lobsterreader.cpp\<close>

text \<open>
  A shallow embedding of \<^verbatim>\<open>src/dev/src/lobsterreader.cpp\<close>: the scratch value stack
  (\<^verbatim>\<open>Deserializer\<close>), the default-value synthesizer (\<^verbatim>\<open>PushDefault\<close>), the by-name
  sub-class resolver (\<^verbatim>\<open>LookupSubClass\<close>) and the three parsers built on them
  (\<^verbatim>\<open>ValueParser\<close>, \<^verbatim>\<open>FlexBufferParser\<close>, \<^verbatim>\<open>LobsterBinaryParser\<close>) with their entry
  points. The runtime (\<^verbatim>\<open>VM\<close>, \<^verbatim>\<open>TypeInfo\<close>, \<^verbatim>\<open>Value\<close>), the lexer and the flexbuffers
  reader are declared in headers that are not part of the sources at hand; what the
  reader uses of them is taken as data (the type table, the token stream, the
  flexbuffer tree) or as a parameter (the fields of the record \<open>VM\<close>).
\<close>

subsection \<open>Runtime data\<close>

text \<open>
  \<^verbatim>\<open>ValueType\<close>: the tags the reader switches on. \<open>V_RESOURCE\<close> and \<open>V_FUNCTION\<close>
  stand for the tags the reader never names (its \<^verbatim>\<open>default:\<close> branches).
\<close>

datatype ValueType =
    V_INT | V_FLOAT | V_STRING | V_NIL | V_VECTOR
  | V_STRUCT_S | V_STRUCT_R | V_CLASS | V_ANY | V_RESOURCE | V_FUNCTION

text \<open>\<^verbatim>\<open>IsStruct\<close> and \<^verbatim>\<open>IsUDT\<close>: a by-value or by-reference struct; a struct or a class.\<close>

definition IsStruct :: "ValueType \<Rightarrow> bool" where
  "IsStruct vt = (vt = V_STRUCT_R \<or> vt = V_STRUCT_S)"

definition IsUDT :: "ValueType \<Rightarrow> bool" where
  "IsUDT vt = (vt = V_CLASS \<or> IsStruct vt)"

text \<open>
  One entry of \<^verbatim>\<open>TypeInfo::elemtypes\<close>: the type of a slot and its default.
\<close>

record TIField =
  fld_type :: int
  fld_defval :: int

text \<open>
  \<^verbatim>\<open>TypeInfo\<close>. The C++ struct overlays \<^verbatim>\<open>subt\<close>, \<^verbatim>\<open>enumidx\<close> and the fields of an
  aggregate in a union; the record keeps them side by side. \<^verbatim>\<open>elemtypes\<close> is an array
  indexed without a bound check, hence a total function. \<^verbatim>\<open>GetElemOrParent\<close> is a
  method whose body is not in the sources at hand: it is a field.
  (\<open>ti_t\<close> is the member \<^verbatim>\<open>t\<close>, \<open>ti_len\<close> the member \<^verbatim>\<open>len\<close>.)
\<close>

record TypeInfo =
  ti_t :: ValueType
  subt :: int
  structidx :: int
  ti_len :: int
  elemtypes :: "int \<Rightarrow> TIField"
  enumidx :: int
  GetElemOrParent :: "int \<Rightarrow> int"

text \<open>A user defined type of the bytecode file, as \<^verbatim>\<open>LookupSubClass\<close> reads it.\<close>

record UDT =
  super_idx :: int
  typeidx :: int

text \<open>
  Floating point values are kept symbolic: the model records where a value came
  from, not its IEEE value.
\<close>

datatype lfloat =
    FloatLit int int            \<comment> \<open>a literal of the input: mantissa and decimal exponent\<close>
  | float_of_bytes "char list"  \<comment> \<open>\<^verbatim>\<open>memcpy(&f, data, sizeof(float))\<close>\<close>
  | int2float int               \<comment> \<open>\<^verbatim>\<open>int2float(defval).f\<close>\<close>
  | FloatNeg lfloat             \<comment> \<open>\<^verbatim>\<open>fval() * -1\<close>\<close>

text \<open>
  \<^verbatim>\<open>Value\<close>. A heap object (string, vector, class instance) is represented by its
  contents: the reader only creates fresh objects and moves values into them, so a
  reference stands for the tree below it. A vector or an object carries the type
  offset it was allocated with. Integers are unbounded here; the only arithmetic the
  reader does on them is the negation of a literal.
\<close>

datatype Value =
    VInt int
  | VFloat lfloat
  | VNil
  | VString string
  | VVector int "Value list"
  | VObject int "Value list"

text \<open>What can end a call other than its return.\<close>

datatype abort =
    Fatal string   \<comment> \<open>a \<^verbatim>\<open>std::string\<close> thrown by \<^verbatim>\<open>THROW_OR_ABORT\<close> or \<^verbatim>\<open>lex.Error\<close>\<close>
  | Undefined      \<comment> \<open>the C++ reads or writes outside an array: undefined behaviour\<close>
  | AssertFailed   \<comment> \<open>an \<^verbatim>\<open>assert\<close> does not hold\<close>
  | OutOfFuel      \<comment> \<open>the model's recursion bound is used up\<close>

text \<open>
  The token types of the lexer that the reader names; \<open>T_OTHER\<close> stands for the rest.
\<close>

datatype TType =
    T_INT | T_FLOAT | T_STR | T_NIL | T_MINUS | T_LEFTBRACKET | T_RIGHTBRACKET
  | T_LEFTCURLY | T_RIGHTCURLY | T_COMMA | T_LINEFEED | T_IDENT | T_ENDOFFILE | T_OTHER

text \<open>
  A node of a flexbuffer, as \<^verbatim>\<open>flexbuffers::Reference\<close> shows it: its type and what
  \<^verbatim>\<open>AsInt64\<close>, \<^verbatim>\<open>AsDouble\<close>, \<^verbatim>\<open>AsString\<close>, \<^verbatim>\<open>AsVector\<close> and \<^verbatim>\<open>AsMap\<close> return.
  \<open>FBT_OTHER\<close> stands for the types the reader does not name.
\<close>

datatype FlexRef =
    FBT_NULL
  | FBT_INT int
  | FBT_BOOL int
  | FBT_FLOAT lfloat
  | FBT_STRING string
  | FBT_VECTOR "FlexRef list"
  | FBT_MAP "(string \<times> FlexRef) list"
  | FBT_OTHER

text \<open>
  The runtime as the reader sees it. \<open>GetTypeInfo\<close>, \<open>UDTLookup\<close>, \<open>StructName\<close>,
  \<open>LookupField\<close>, \<open>LookupEnum\<close> and \<open>GetSubClassFromSerID\<close> are methods and members of
  \<^verbatim>\<open>VM\<close>; \<open>TYPE_ELEM_INT\<close>, \<open>TYPE_ELEM_FLOAT\<close> and \<open>TYPE_ELEM_ANY\<close> are constants of the
  type table; \<open>Debug\<close> is \<^verbatim>\<open>TypeInfo::Debug\<close>; \<open>BaseTypeName\<close>, \<open>DecodeVarintU\<close> and
  \<open>DecodeVarintS\<close> are free functions; \<open>TokStr\<close> is \<^verbatim>\<open>Lex::TokStr\<close> and \<open>ToString\<close> is
  \<^verbatim>\<open>flexbuffers::Reference::ToString\<close>, both used for messages only.
  None of them is defined in the sources at hand. A varint decoder takes the bytes
  between the cursor and \<^verbatim>\<open>end\<close> and returns the value with the bytes left, or does
  not return.
\<close>

record VM =
  GetTypeInfo :: "int \<Rightarrow> TypeInfo"
  UDTLookup :: "string \<Rightarrow> UDT list"
  StructName :: "TypeInfo \<Rightarrow> string"
  LookupField :: "int \<Rightarrow> int \<Rightarrow> string"
  LookupEnum :: "string \<Rightarrow> int \<Rightarrow> int option"
  GetSubClassFromSerID :: "int \<Rightarrow> int \<Rightarrow> int"
  TYPE_ELEM_INT :: int
  TYPE_ELEM_FLOAT :: int
  TYPE_ELEM_ANY :: int
  BaseTypeName :: "ValueType \<Rightarrow> string"
  Debug :: "TypeInfo \<Rightarrow> string"
  TokStr :: "TType \<Rightarrow> string"
  ToString :: "FlexRef \<Rightarrow> string"
  DecodeVarintU :: "char list \<Rightarrow> abort + (nat \<times> char list)"
  DecodeVarintS :: "char list \<Rightarrow> abort + (int \<times> char list)"

subsection \<open>The scratch value stack\<close>

text \<open>
  \<^verbatim>\<open>struct Deserializer\<close>: the two parallel vectors. \<open>live\<close> counts the heap objects
  the parse has obtained from the VM (\<^verbatim>\<open>NewString\<close>, \<^verbatim>\<open>NewVec\<close>, \<^verbatim>\<open>NewObject\<close>) and
  not yet released.
\<close>

record Deserializer =
  stack :: "Value list"
  is_ref :: "bool list"
  live :: nat

definition PushV :: "Value \<Rightarrow> bool \<Rightarrow> 'a Deserializer_scheme \<Rightarrow> 'a Deserializer_scheme" where
  "PushV v ir d = d\<lparr>stack := stack d @ [v], is_ref := is_ref d @ [ir]\<rparr>"

text \<open>
  \<^verbatim>\<open>PopV\<close>: \<^verbatim>\<open>back()\<close> and \<^verbatim>\<open>pop_back()\<close> of an empty vector are undefined.
\<close>

definition PopV :: "'a Deserializer_scheme \<Rightarrow> abort + (Value \<times> 'a Deserializer_scheme)" where
  "PopV d =
     (if stack d = [] \<or> is_ref d = [] then Inl Undefined
      else Inr (last (stack d), d\<lparr>stack := butlast (stack d), is_ref := butlast (is_ref d)\<rparr>))"

text \<open>
  \<^verbatim>\<open>PopVN\<close>: both vectors are resized to their size minus \<open>n\<close>. The subtraction is
  one of \<^verbatim>\<open>size_t\<close>: with \<open>n\<close> above the size it wraps around and the resize asks for
  about \<open>2^64\<close> elements, which no run survives.
\<close>

definition PopVN :: "nat \<Rightarrow> 'a Deserializer_scheme \<Rightarrow> abort + 'a Deserializer_scheme" where
  "PopVN n d =
     (if length (stack d) < n \<or> length (is_ref d) < n then Inl Undefined
      else Inr (d\<lparr>stack := take (length (stack d) - n) (stack d),
                  is_ref := take (length (is_ref d) - n) (is_ref d)\<rparr>))"

text \<open>The constructor: two empty vectors.\<close>

definition Deserializer_init :: Deserializer where
  "Deserializer_init = \<lparr>stack = [], is_ref = [], live = 0\<rparr>"

text \<open>
  The heap objects of a value: what \<^verbatim>\<open>NewString\<close>, \<^verbatim>\<open>NewVec\<close> and \<^verbatim>\<open>NewObject\<close>
  returned to build it.
\<close>

fun heap_nodes :: "Value \<Rightarrow> nat" where
  "heap_nodes (VInt i) = 0"
| "heap_nodes (VFloat f) = 0"
| "heap_nodes VNil = 0"
| "heap_nodes (VString s) = 1"
| "heap_nodes (VVector ty vs) = Suc (sum_list (map heap_nodes vs))"
| "heap_nodes (VObject ty vs) = Suc (sum_list (map heap_nodes vs))"

fun is_heap :: "Value \<Rightarrow> bool" where
  "is_heap (VString s) = True"
| "is_heap (VVector ty vs) = True"
| "is_heap (VObject ty vs) = True"
| "is_heap v = False"

text \<open>The VM hands out a fresh object (reference count one).\<close>

definition allocated :: "'a Deserializer_scheme \<Rightarrow> 'a Deserializer_scheme" where
  "allocated d = d\<lparr>live := Suc (live d)\<rparr>"

text \<open>
  \<^verbatim>\<open>~Deserializer\<close>: the assertion, then one \<^verbatim>\<open>Dec\<close> for every flagged slot, in
  index order. The loop returns the values it released. \<^verbatim>\<open>ref()->Dec(vm)\<close> on a slot
  that holds no reference dereferences a null or a wild pointer.
\<close>

function dtor_loop :: "Value list \<Rightarrow> bool list \<Rightarrow> nat \<Rightarrow> Value list \<Rightarrow> abort + Value list" where
  "dtor_loop st ir i rel =
     (if i < length st then
        (if ir ! i then
           (if is_heap (st ! i) then dtor_loop st ir (Suc i) (rel @ [st ! i])
            else Inl Undefined)
         else dtor_loop st ir (Suc i) rel)
      else Inr rel)"
  by pat_completeness auto
termination
  by (relation "measure (\<lambda>(st, ir, i, rel). length st - i)") auto

text \<open>
  The destructor returns the released values and the number of objects of this
  parse that are still alive after it: a released object had reference count one, so
  it is freed together with the objects it holds.
\<close>

definition Deserializer_dtor :: "'a Deserializer_scheme \<Rightarrow> abort + (Value list \<times> nat)" where
  "Deserializer_dtor d =
     (if length (stack d) \<noteq> length (is_ref d) then Inl AssertFailed
      else case dtor_loop (stack d) (is_ref d) 0 [] of
             Inl a \<Rightarrow> Inl a
           | Inr rel \<Rightarrow> Inr (rel, live d - sum_list (map heap_nodes rel)))"

text \<open>
  The idiom that closes an aggregate, four times in the file:
  \<^verbatim>\<open>auto vec = vm.NewObject(len, typeoff);
  if (len) vec->CopyElemsShallow(stack.size() - len + stack.data(), len);
  PopVN(len); PushV(vec, true);\<close>
  With \<open>len\<close> negative or above the stack's size the copy reads outside the stack.
\<close>

definition NewObject_of_stack ::
  "int \<Rightarrow> int \<Rightarrow> 'a Deserializer_scheme \<Rightarrow> (abort \<times> 'a Deserializer_scheme) + 'a Deserializer_scheme" where
  "NewObject_of_stack len typeoff d =
     (if len < 0 \<or> int (length (stack d)) < len then Inl (Undefined, d)
      else let vec = VObject typeoff (drop (length (stack d) - nat len) (stack d))
           in case PopVN (nat len) (allocated d) of
                Inl a \<Rightarrow> Inl (a, d)
              | Inr d' \<Rightarrow> Inr (PushV vec True d'))"

text \<open>
  The same for a vector, three times in the file:
  \<^verbatim>\<open>auto width = IsStruct(sti.t) ? sti.len : 1; auto n = len / width;
  auto vec = vm.NewVec(n, n, typeoff);
  if (len) vec->CopyElemsShallow(stack.size() - len + stack.data());
  PopVN(len); PushV(vec, true);\<close>
  The vector copies \<open>n * width\<close> slots. A width of zero divides by zero; a negative
  width or length gives a negative element count or a read outside the stack.
\<close>

definition NewVec_of_stack ::
  "VM \<Rightarrow> int \<Rightarrow> int \<Rightarrow> int \<Rightarrow> 'a Deserializer_scheme \<Rightarrow> (abort \<times> 'a Deserializer_scheme) + 'a Deserializer_scheme" where
  "NewVec_of_stack vm len elemoff typeoff d =
     (let sti = GetTypeInfo vm elemoff;
          width = (if IsStruct (ti_t sti) then ti_len sti else 1)
      in if width \<le> 0 \<or> len < 0 \<or> int (length (stack d)) < len then Inl (Undefined, d)
         else let n = len div width;
                  vec = VVector typeoff
                          (take (nat (n * width)) (drop (length (stack d) - nat len) (stack d)))
              in case PopVN (nat len) (allocated d) of
                   Inl a \<Rightarrow> Inl (a, d)
                 | Inr d' \<Rightarrow> Inr (PushV vec True d'))"

text \<open>\<^verbatim>\<open>NumElems\<close>, the lambda of the parsers: \<^verbatim>\<open>iint(stack.size() - stack_start)\<close>.\<close>

definition NumElems :: "'a Deserializer_scheme \<Rightarrow> nat \<Rightarrow> int" where
  "NumElems d stack_start = int (length (stack d)) - int stack_start"

subsection \<open>The default-value synthesizer\<close>

text \<open>
  \<^verbatim>\<open>PushDefault\<close>. The loop over the members calls \<^verbatim>\<open>PushDefault\<close> and drops what it
  returns. The type table may be cyclic, so the recursion carries a bound.
\<close>

fun PushDefault ::
  "nat \<Rightarrow> VM \<Rightarrow> int \<Rightarrow> int \<Rightarrow> 'a Deserializer_scheme
    \<Rightarrow> (abort \<times> 'a Deserializer_scheme) + (bool \<times> 'a Deserializer_scheme)"
and PushDefault_members ::
  "nat \<Rightarrow> VM \<Rightarrow> TypeInfo \<Rightarrow> int \<Rightarrow> 'a Deserializer_scheme
    \<Rightarrow> (abort \<times> 'a Deserializer_scheme) + 'a Deserializer_scheme"
where
  "PushDefault 0 vm typeoff defval d = Inl (OutOfFuel, d)"
| "PushDefault (Suc fuel) vm typeoff defval d =
     (let ti = GetTypeInfo vm typeoff in
      if ti_t ti = V_INT then Inr (True, PushV (VInt defval) False d)
      else if ti_t ti = V_FLOAT then Inr (True, PushV (VFloat (int2float defval)) False d)
      else if ti_t ti = V_NIL then Inr (True, PushV VNil False d)
      else if ti_t ti = V_VECTOR then Inr (True, PushV (VVector typeoff []) True (allocated d))
      else if ti_t ti = V_STRUCT_S \<or> ti_t ti = V_STRUCT_R \<or> ti_t ti = V_CLASS then
        (case PushDefault_members fuel vm ti 0 d of
           Inl e \<Rightarrow> Inl e
         | Inr d1 \<Rightarrow>
             if ti_t ti = V_CLASS then
               (case NewObject_of_stack (ti_len ti) typeoff d1 of
                  Inl e \<Rightarrow> Inl e
                | Inr d2 \<Rightarrow> Inr (True, d2))
             else Inr (True, d1))
      else Inr (False, d))"
| "PushDefault_members 0 vm ti i d = Inl (OutOfFuel, d)"
| "PushDefault_members (Suc fuel) vm ti i d =
     (if i < ti_len ti then
        (case PushDefault fuel vm (fld_type (elemtypes ti i)) (fld_defval (elemtypes ti i)) d of
           Inl e \<Rightarrow> Inl e
         | Inr (ok, d1) \<Rightarrow> PushDefault_members fuel vm ti (i + 1) d1)
      else Inr d)"

subsection \<open>The by-name sub-class resolver\<close>

text \<open>
  \<^verbatim>\<open>LookupSubClass\<close>: the loop over \<^verbatim>\<open>vm.UDTLookup[sname]\<close>. \<open>None\<close> is the pair
  \<^verbatim>\<open>{ nullptr, -1 }\<close>.
\<close>

fun LookupSubClass_loop :: "VM \<Rightarrow> UDT list \<Rightarrow> TypeInfo \<Rightarrow> (TypeInfo \<times> int) option" where
  "LookupSubClass_loop vm [] ti = None"
| "LookupSubClass_loop vm (udt # udts) ti =
     (if super_idx udt = structidx ti then
        (let typeoff = typeidx udt in
         if typeoff \<ge> 0 then Some (GetTypeInfo vm typeoff, typeoff)
         else LookupSubClass_loop vm udts ti)
      else LookupSubClass_loop vm udts ti)"

definition LookupSubClass :: "VM \<Rightarrow> string \<Rightarrow> TypeInfo \<Rightarrow> int \<Rightarrow> (TypeInfo \<times> int) option" where
  "LookupSubClass vm sname ti typeoff = LookupSubClass_loop vm (UDTLookup vm sname) ti"

subsection \<open>The schema-driven binary parser\<close>

text \<open>What a public entry point leaves to its caller, and what its parser released.\<close>

record Returned =
  ret_value :: Value         \<comment> \<open>the first value pushed on \<^verbatim>\<open>sp\<close>\<close>
  ret_error :: Value         \<comment> \<open>the second: nil, or the message as a string\<close>
  released :: "Value list"   \<comment> \<open>what the parser's destructor released\<close>
  alive :: nat               \<comment> \<open>objects of this call still allocated on return\<close>

text \<open>Decimal digits, for \<^verbatim>\<open>cat\<close> of a number.\<close>

fun string_of_nat :: "nat \<Rightarrow> string" where
  "string_of_nat n =
     (if n < 10 then [char_of (48 + n)]
      else string_of_nat (n div 10) @ [char_of (48 + n mod 10)])"

text \<open>The casts \<^verbatim>\<open>(int)\<close> and \<^verbatim>\<open>(uint32_t)\<close> of a decoded varint.\<close>

definition cast_int :: "nat \<Rightarrow> int" where
  "cast_int n =
     (if int n mod 2 ^ 32 < 2 ^ 31 then int n mod 2 ^ 32 else int n mod 2 ^ 32 - 2 ^ 32)"

definition cast_uint32 :: "nat \<Rightarrow> int" where
  "cast_uint32 n = int n mod 2 ^ 32"

text \<open>\<^verbatim>\<open>LobsterBinaryParser::Error\<close> and \<^verbatim>\<open>Truncated\<close>.\<close>

definition LobsterBinaryParser_Error :: "string \<Rightarrow> 'd \<Rightarrow> (abort \<times> 'd) + 'r" where
  "LobsterBinaryParser_Error s d = Inl (Fatal (''lobster_binary_to_value: '' @ s), d)"

definition Truncated :: "'d \<Rightarrow> (abort \<times> 'd) + 'r" where
  "Truncated d = LobsterBinaryParser_Error ''data truncated'' d"

text \<open>
  \<^verbatim>\<open>LobsterBinaryParser::ParseElem\<close>. The cursor \<^verbatim>\<open>data\<close> is the list of the bytes up
  to \<^verbatim>\<open>end\<close>; a call returns the bytes left. The type table may be cyclic and a
  struct of no slots consumes nothing, so the recursion carries a bound: \<open>ParseElem\<close>
  with bound \<open>Suc fuel\<close> runs the body below, in which \<open>rec\<close> is \<open>ParseElem\<close> with
  bound \<open>fuel\<close>. The three loops that call \<^verbatim>\<open>ParseElem\<close> are functions of their own.
\<close>

type_synonym bin_state = "char list \<times> Deserializer"
type_synonym bin_result = "(abort \<times> Deserializer) + bin_state"

text \<open>\<^verbatim>\<open>for (size_t i = 0; i < len; i++) ParseElem(data, end, ti->subt);\<close>\<close>

function ParseElem_vector ::
  "(int \<Rightarrow> bin_state \<Rightarrow> bin_result) \<Rightarrow> int \<Rightarrow> nat \<Rightarrow> nat \<Rightarrow> bin_state \<Rightarrow> bin_result" where
  "ParseElem_vector rec elemoff i len x =
     (if i < len then
        (case rec elemoff x of
           Inl e \<Rightarrow> Inl e
         | Inr x1 \<Rightarrow> ParseElem_vector rec elemoff (Suc i) len x1)
      else Inr x)"
  by pat_completeness auto
termination
  by (relation "measure (\<lambda>(rec, elemoff, i, len, x). len - i)") auto

text \<open>
  The loop of a class, \<^verbatim>\<open>for (int i = 0; NumElems() != ti->len; i++)\<close>: a slot
  at or past the encoded count \<open>elen\<close> gets its default, the others are read.
\<close>

fun ParseElem_class ::
  "(int \<Rightarrow> bin_state \<Rightarrow> bin_result) \<Rightarrow> nat \<Rightarrow> VM \<Rightarrow> TypeInfo \<Rightarrow> int \<Rightarrow> nat \<Rightarrow> int
    \<Rightarrow> bin_state \<Rightarrow> bin_result" where
  "ParseElem_class rec 0 vm ti elen stack_start i x = Inl (OutOfFuel, snd x)"
| "ParseElem_class rec (Suc fuel) vm ti elen stack_start i x =
     (if NumElems (snd x) stack_start \<noteq> ti_len ti then
        (if NumElems (snd x) stack_start \<ge> elen then
           (case PushDefault fuel vm (GetElemOrParent ti (NumElems (snd x) stack_start))
                   (fld_defval (elemtypes ti (NumElems (snd x) stack_start))) (snd x) of
              Inl e \<Rightarrow> Inl e
            | Inr (ok, d1) \<Rightarrow>
                if \<not> ok then
                  LobsterBinaryParser_Error
                    (''no default value exists for missing field '' @
                     LookupField vm (structidx ti) i) d1
                else ParseElem_class rec fuel vm ti elen stack_start (i + 1) (fst x, d1))
         else
           (case rec (GetElemOrParent ti (NumElems (snd x) stack_start)) x of
              Inl e \<Rightarrow> Inl e
            | Inr x1 \<Rightarrow> ParseElem_class rec fuel vm ti elen stack_start (i + 1) x1))
      else Inr x)"

text \<open>
  The loop of a struct, \<^verbatim>\<open>while (NumElems() != ti->len)\<close>: its slots are read flat.
\<close>

fun ParseElem_struct ::
  "(int \<Rightarrow> bin_state \<Rightarrow> bin_result) \<Rightarrow> nat \<Rightarrow> TypeInfo \<Rightarrow> nat \<Rightarrow> bin_state \<Rightarrow> bin_result" where
  "ParseElem_struct rec 0 ti stack_start x = Inl (OutOfFuel, snd x)"
| "ParseElem_struct rec (Suc fuel) ti stack_start x =
     (if NumElems (snd x) stack_start \<noteq> ti_len ti then
        (case rec (GetElemOrParent ti (NumElems (snd x) stack_start)) x of
           Inl e \<Rightarrow> Inl e
         | Inr x1 \<Rightarrow> ParseElem_struct rec fuel ti stack_start x1)
      else Inr x)"

text \<open>
  The cases of the \<^verbatim>\<open>switch\<close>, each with the declared type \<open>base_ti\<close>, the type
  \<open>ti\<close> under a nilable one and its offset \<open>typeoff\<close>.
\<close>

definition ParseElem_INT :: "VM \<Rightarrow> bin_state \<Rightarrow> bin_result" where
  "ParseElem_INT vm x =
     (case DecodeVarintS vm (fst x) of
        Inl a \<Rightarrow> Inl (a, snd x)
      | Inr (i, data1) \<Rightarrow> Inr (data1, PushV (VInt i) False (snd x)))"

definition ParseElem_FLOAT :: "bin_state \<Rightarrow> bin_result" where
  "ParseElem_FLOAT x =
     (if length (fst x) < 4 then Truncated (snd x)
      else Inr (drop 4 (fst x), PushV (VFloat (float_of_bytes (take 4 (fst x)))) False (snd x)))"

text \<open>
  A string of \<open>len\<close> bytes is taken with no look at \<^verbatim>\<open>end\<close>: with fewer bytes left the
  \<^verbatim>\<open>string_view\<close> runs past the buffer and the cursor with it.
\<close>

definition ParseElem_STRING :: "VM \<Rightarrow> TypeInfo \<Rightarrow> bin_state \<Rightarrow> bin_result" where
  "ParseElem_STRING vm base_ti x =
     (case DecodeVarintU vm (fst x) of
        Inl a \<Rightarrow> Inl (a, snd x)
      | Inr (len, data1) \<Rightarrow>
          if len = 0 \<and> ti_t base_ti = V_NIL then Inr (data1, PushV VNil False (snd x))
          else if length data1 < len then Inl (Undefined, snd x)
          else Inr (drop len data1, PushV (VString (take len data1)) True (allocated (snd x))))"

definition ParseElem_VECTOR ::
  "(int \<Rightarrow> bin_state \<Rightarrow> bin_result) \<Rightarrow> VM \<Rightarrow> TypeInfo \<Rightarrow> TypeInfo \<Rightarrow> int \<Rightarrow> bin_state \<Rightarrow> bin_result" where
  "ParseElem_VECTOR rec vm base_ti ti typeoff x =
     (case DecodeVarintU vm (fst x) of
        Inl a \<Rightarrow> Inl (a, snd x)
      | Inr (len, data1) \<Rightarrow>
          if len = 0 \<and> ti_t base_ti = V_NIL then Inr (data1, PushV VNil False (snd x))
          else
            (let stack_start = length (stack (snd x)) in
             case ParseElem_vector rec (subt ti) 0 len (data1, snd x) of
               Inl e \<Rightarrow> Inl e
             | Inr (data2, d2) \<Rightarrow>
                 (case NewVec_of_stack vm (NumElems d2 stack_start) (subt ti) typeoff d2 of
                    Inl e \<Rightarrow> Inl e
                  | Inr d3 \<Rightarrow> Inr (data2, d3))))"

definition ParseElem_CLASS ::
  "(int \<Rightarrow> bin_state \<Rightarrow> bin_result) \<Rightarrow> nat \<Rightarrow> VM \<Rightarrow> TypeInfo \<Rightarrow> TypeInfo \<Rightarrow> int \<Rightarrow> bin_state
    \<Rightarrow> bin_result" where
  "ParseElem_CLASS rec fuel vm base_ti ti typeoff x =
     (case DecodeVarintU vm (fst x) of
        Inl a \<Rightarrow> Inl (a, snd x)
      | Inr (n, data1) \<Rightarrow>
          (let elen = cast_int n in
           if elen = 0 \<and> ti_t base_ti = V_NIL then Inr (data1, PushV VNil False (snd x))
           else
             (case DecodeVarintU vm data1 of
                Inl a \<Rightarrow> Inl (a, snd x)
              | Inr (ser_id, data2) \<Rightarrow>
                  (let typeoff1 = GetSubClassFromSerID vm typeoff (cast_uint32 ser_id) in
                   if typeoff1 < 0 then
                     LobsterBinaryParser_Error
                       (''serialization id '' @ string_of_nat ser_id @
                        '' is not a sub-class of '' @ StructName vm ti) (snd x)
                   else
                     (let ti1 = GetTypeInfo vm typeoff1;
                          stack_start = length (stack (snd x))
                      in
                      case ParseElem_class rec fuel vm ti1 elen stack_start 0 (data2, snd x) of
                        Inl e \<Rightarrow> Inl e
                      | Inr (data3, d3) \<Rightarrow>
                          if elen > NumElems d3 stack_start then
                            LobsterBinaryParser_Error
                              (''extra fields presents in '' @ StructName vm ti1) d3
                          else
                            (case NewObject_of_stack (NumElems d3 stack_start) typeoff1 d3 of
                               Inl e \<Rightarrow> Inl e
                             | Inr d4 \<Rightarrow> Inr (data3, d4)))))))"

text \<open>
  The body of \<^verbatim>\<open>ParseElem\<close>: the declared type, one step under a nilable type, the
  check for the end of the data, the \<^verbatim>\<open>switch\<close>.
\<close>

definition ParseElem_body ::
  "(int \<Rightarrow> bin_state \<Rightarrow> bin_result) \<Rightarrow> nat \<Rightarrow> VM \<Rightarrow> int \<Rightarrow> bin_state \<Rightarrow> bin_result" where
  "ParseElem_body rec fuel vm typeoff0 x =
     (let base_ti = GetTypeInfo vm typeoff0;
          typeoff = (if ti_t base_ti = V_NIL then subt base_ti else typeoff0);
          ti = (if ti_t base_ti = V_NIL then GetTypeInfo vm (subt base_ti) else base_ti)
      in
      if fst x = [] then Truncated (snd x)
      else if ti_t ti = V_INT then ParseElem_INT vm x
      else if ti_t ti = V_FLOAT then ParseElem_FLOAT x
      else if ti_t ti = V_STRING then ParseElem_STRING vm base_ti x
      else if ti_t ti = V_VECTOR then ParseElem_VECTOR rec vm base_ti ti typeoff x
      else if ti_t ti = V_CLASS then ParseElem_CLASS rec fuel vm base_ti ti typeoff x
      else if ti_t ti = V_STRUCT_S \<or> ti_t ti = V_STRUCT_R then
        ParseElem_struct rec fuel ti (length (stack (snd x))) x
      else
        LobsterBinaryParser_Error
          (''can'' @ [CHR 0x27] @ ''t convert to value: '' @ Debug vm ti) (snd x))"

fun ParseElem :: "nat \<Rightarrow> VM \<Rightarrow> int \<Rightarrow> bin_state \<Rightarrow> bin_result" where
  "ParseElem 0 vm typeoff x = Inl (OutOfFuel, snd x)"
| "ParseElem (Suc fuel) vm typeoff x = ParseElem_body (ParseElem fuel vm) fuel vm typeoff x"

text \<open>
  \<^verbatim>\<open>LobsterBinaryParser::Parse\<close>: the value, the assertion, and the value moved to
  the caller's stack.
\<close>

definition LobsterBinaryParser_Parse ::
  "nat \<Rightarrow> VM \<Rightarrow> int \<Rightarrow> char list \<Rightarrow> Deserializer \<Rightarrow> (abort \<times> Deserializer) + (Value \<times> Deserializer)" where
  "LobsterBinaryParser_Parse fuel vm typeoff data d =
     (case ParseElem fuel vm typeoff (data, d) of
        Inl e \<Rightarrow> Inl e
      | Inr (data1, d1) \<Rightarrow>
          if length (stack d1) \<noteq> 1 then Inl (AssertFailed, d1)
          else (case PopV d1 of Inl a \<Rightarrow> Inl (a, d1) | Inr (v, d2) \<Rightarrow> Inr (v, d2)))"

text \<open>
  The body shared by the three entry points, built with \<^verbatim>\<open>USE_EXCEPTION_HANDLING\<close>:
  \<^verbatim>\<open>try { parser.Parse(..); Push(sp, NilVal()); }
  catch (string &s) { Push(sp, NilVal()); Push(sp, vm.NewString(s)); }\<close>
  and then the parser's destructor. Only a thrown string is caught.
\<close>

definition try_catch ::
  "(abort \<times> 'a Deserializer_scheme) + (Value \<times> 'a Deserializer_scheme) \<Rightarrow> abort + Returned" where
  "try_catch r =
     (case r of
        Inr (v, d) \<Rightarrow>
          (case Deserializer_dtor d of
             Inl a \<Rightarrow> Inl a
           | Inr (rel, n) \<Rightarrow> Inr \<lparr>ret_value = v, ret_error = VNil, released = rel, alive = n\<rparr>)
      | Inl (Fatal s, d) \<Rightarrow>
          (case Deserializer_dtor (allocated d) of
             Inl a \<Rightarrow> Inl a
           | Inr (rel, n) \<Rightarrow>
               Inr \<lparr>ret_value = VNil, ret_error = VString s, released = rel, alive = n\<rparr>)
      | Inl (a, d) \<Rightarrow> Inl a)"

definition ParseLobsterBinaryData :: "nat \<Rightarrow> VM \<Rightarrow> int \<Rightarrow> char list \<Rightarrow> abort + Returned" where
  "ParseLobsterBinaryData fuel vm typeoff data =
     try_catch (LobsterBinaryParser_Parse fuel vm typeoff data Deserializer_init)"

subsection \<open>The textual parser\<close>

text \<open>
  The lexer is used through \<^verbatim>\<open>lex.token\<close>, the attributes of the current token
  (\<^verbatim>\<open>ival\<close>, \<^verbatim>\<open>fval\<close>, \<^verbatim>\<open>sval\<close>, \<^verbatim>\<open>sattr\<close>), \<^verbatim>\<open>Next\<close> and \<^verbatim>\<open>Error\<close>. Its
  state is the list of the tokens not yet consumed, the current one first; past the
  last token the lexer stays at the end of the file.
\<close>

datatype Token =
    Tok TType
  | IntTok int
  | FloatTok lfloat
  | StrTok string
  | IdentTok string

fun ttype :: "Token \<Rightarrow> TType" where
  "ttype (Tok tt) = tt"
| "ttype (IntTok i) = T_INT"
| "ttype (FloatTok f) = T_FLOAT"
| "ttype (StrTok s) = T_STR"
| "ttype (IdentTok s) = T_IDENT"

text \<open>\<^verbatim>\<open>struct ValueParser : Deserializer\<close>.\<close>

record ValueParser = Deserializer +
  lex :: "Token list"

definition lex_token :: "ValueParser \<Rightarrow> TType" where
  "lex_token p = (case lex p of [] \<Rightarrow> T_ENDOFFILE | tk # rest \<Rightarrow> ttype tk)"

definition lex_Next :: "ValueParser \<Rightarrow> ValueParser" where
  "lex_Next p = p\<lparr>lex := tl (lex p)\<rparr>"

definition lex_ival :: "ValueParser \<Rightarrow> int" where
  "lex_ival p = (case lex p of IntTok i # rest \<Rightarrow> i | _ \<Rightarrow> 0)"

definition lex_fval :: "ValueParser \<Rightarrow> lfloat" where
  "lex_fval p = (case lex p of FloatTok f # rest \<Rightarrow> f | _ \<Rightarrow> FloatLit 0 0)"

definition lex_sval :: "ValueParser \<Rightarrow> string" where
  "lex_sval p = (case lex p of StrTok s # rest \<Rightarrow> s | _ \<Rightarrow> [])"

definition lex_sattr :: "ValueParser \<Rightarrow> string" where
  "lex_sattr p = (case lex p of IdentTok s # rest \<Rightarrow> s | _ \<Rightarrow> [])"

text \<open>
  \<^verbatim>\<open>lex.Error\<close> throws its message (the lexer puts the position in the source text
  in front of it, which the model leaves out).
\<close>

definition lex_Error :: "string \<Rightarrow> 'd \<Rightarrow> (abort \<times> 'd) + 'r" where
  "lex_Error s p = Inl (Fatal s, p)"

type_synonym vp_result = "(abort \<times> ValueParser) + ValueParser"

definition Expect :: "VM \<Rightarrow> TType \<Rightarrow> ValueParser \<Rightarrow> vp_result" where
  "Expect vm tt p =
     (if lex_token p \<noteq> tt then
        lex_Error (TokStr vm tt @ '' expected, found: '' @ TokStr vm (lex_token p)) p
      else Inr (lex_Next p))"

definition Gobble :: "TType \<Rightarrow> ValueParser \<Rightarrow> ValueParser" where
  "Gobble tt p = (if lex_token p = tt then lex_Next p else p)"

text \<open>\<^verbatim>\<open>ValueParser::ExpectType\<close>; \<open>True\<close> when it returns.\<close>

definition ExpectType_ok :: "ValueType \<Rightarrow> ValueType \<Rightarrow> bool" where
  "ExpectType_ok given needed = (\<not> (given \<noteq> needed \<and> needed \<noteq> V_ANY))"

definition ExpectType_msg :: "VM \<Rightarrow> ValueType \<Rightarrow> ValueType \<Rightarrow> string" where
  "ExpectType_msg vm given needed =
     ''type '' @ BaseTypeName vm needed @ '' required, '' @ BaseTypeName vm given @ '' given''"

text \<open>
  The loop of \<^verbatim>\<open>ParseElems\<close>, one element a turn; \<open>rec\<close> is \<^verbatim>\<open>ParseFactor\<close>.
  \<^verbatim>\<open>for (;;) { .. if (lex.token == end) break; if (!haslf) Expect(T_COMMA); }\<close>
\<close>

fun ParseElems_loop ::
  "(int \<Rightarrow> bool \<Rightarrow> ValueParser \<Rightarrow> vp_result) \<Rightarrow> nat \<Rightarrow> VM \<Rightarrow> TType \<Rightarrow> TypeInfo \<Rightarrow> int \<Rightarrow> bool
    \<Rightarrow> nat \<Rightarrow> ValueParser \<Rightarrow> vp_result" where
  "ParseElems_loop rec 0 vm endt ti numelems push stack_start p = Inl (OutOfFuel, p)"
| "ParseElems_loop rec (Suc fuel) vm endt ti numelems push stack_start p =
     (case (if NumElems p stack_start = numelems then rec (TYPE_ELEM_ANY vm) False p
            else rec (if ti_t ti = V_VECTOR then subt ti
                      else GetElemOrParent ti (NumElems p stack_start)) push p) of
        Inl e \<Rightarrow> Inl e
      | Inr p1 \<Rightarrow>
          (if lex_token p1 = T_LINEFEED then
             (if lex_token (lex_Next p1) = endt then Inr (lex_Next p1)
              else ParseElems_loop rec fuel vm endt ti numelems push stack_start (lex_Next p1))
           else
             (if lex_token p1 = endt then Inr p1
              else (case Expect vm T_COMMA p1 of
                      Inl e \<Rightarrow> Inl e
                    | Inr p2 \<Rightarrow>
                        ParseElems_loop rec fuel vm endt ti numelems push stack_start p2))))"

text \<open>
  The loop that fills what the literal left out:
  \<^verbatim>\<open>while (NumElems() < numelems) if (!PushDefault(..)) lex.Error(..);\<close>
\<close>

fun ParseElems_fill ::
  "nat \<Rightarrow> VM \<Rightarrow> TypeInfo \<Rightarrow> int \<Rightarrow> nat \<Rightarrow> ValueParser \<Rightarrow> vp_result" where
  "ParseElems_fill 0 vm ti numelems stack_start p = Inl (OutOfFuel, p)"
| "ParseElems_fill (Suc fuel) vm ti numelems stack_start p =
     (if NumElems p stack_start < numelems then
        (case PushDefault fuel vm (fld_type (elemtypes ti (NumElems p stack_start)))
                (fld_defval (elemtypes ti (NumElems p stack_start))) p of
           Inl e \<Rightarrow> Inl e
         | Inr (ok, p1) \<Rightarrow>
             if \<not> ok then lex_Error ''no default value exists for missing struct elements'' p1
             else ParseElems_fill fuel vm ti numelems stack_start p1)
      else Inr p)"

text \<open>What \<^verbatim>\<open>ParseElems\<close> does after the closing token when \<open>push\<close> is set.\<close>

definition ParseElems_finish ::
  "nat \<Rightarrow> VM \<Rightarrow> int \<Rightarrow> int \<Rightarrow> nat \<Rightarrow> ValueParser \<Rightarrow> vp_result" where
  "ParseElems_finish fuel vm typeoff numelems stack_start p =
     (let ti = GetTypeInfo vm typeoff in
      case (if numelems \<ge> 0 then ParseElems_fill fuel vm ti numelems stack_start p else Inr p) of
        Inl e \<Rightarrow> Inl e
      | Inr p1 \<Rightarrow>
          if ti_t ti = V_CLASS then NewObject_of_stack (NumElems p1 stack_start) typeoff p1
          else if ti_t ti = V_VECTOR then
            NewVec_of_stack vm (NumElems p1 stack_start) (subt ti) typeoff p1
          else Inr p1)"

text \<open>\<^verbatim>\<open>ValueParser::ParseElems\<close>: a vector or a struct.\<close>

definition ParseElems ::
  "(int \<Rightarrow> bool \<Rightarrow> ValueParser \<Rightarrow> vp_result) \<Rightarrow> nat \<Rightarrow> VM \<Rightarrow> TType \<Rightarrow> int \<Rightarrow> int \<Rightarrow> bool
    \<Rightarrow> ValueParser \<Rightarrow> vp_result" where
  "ParseElems rec fuel vm endt typeoff numelems push p0 =
     (let p = Gobble T_LINEFEED p0;
          ti = GetTypeInfo vm typeoff;
          stack_start = length (stack p)
      in
      case (if lex_token p = endt then Inr (lex_Next p)
            else (case ParseElems_loop rec fuel vm endt ti numelems push stack_start p of
                    Inl e \<Rightarrow> Inl e
                  | Inr p1 \<Rightarrow> Inr (lex_Next p1))) of
        Inl e \<Rightarrow> Inl e
      | Inr p2 \<Rightarrow>
          if \<not> push then Inr p2
          else ParseElems_finish fuel vm typeoff numelems stack_start p2)"

text \<open>
  The product of two \<^verbatim>\<open>int64_t\<close>, as the machine computes it: the low 64 bits of the
  product, read as a signed number. The smallest \<^verbatim>\<open>int64_t\<close> times \<open>-1\<close> is itself.
\<close>

definition mul_int64 :: "int \<Rightarrow> int \<Rightarrow> int" where
  "mul_int64 a b = (a * b + 2 ^ 63) mod 2 ^ 64 - 2 ^ 63"

text \<open>
  The unary minus on the value just parsed:
  \<^verbatim>\<open>stack.back().setival(stack.back().ival() * -1)\<close> and the same for a float. The
  source picks the case by the type offset, not by the value: on an empty stack, or
  on a slot that holds something else, the access is not defined.
\<close>

definition negate_back :: "VM \<Rightarrow> int \<Rightarrow> ValueParser \<Rightarrow> vp_result" where
  "negate_back vm typeoff p =
     (if typeoff = TYPE_ELEM_INT vm then
        (if stack p = [] then Inl (Undefined, p)
         else case last (stack p) of
                VInt i \<Rightarrow> Inr (p\<lparr>stack := butlast (stack p) @ [VInt (mul_int64 i (- 1))]\<rparr>)
              | _ \<Rightarrow> Inl (Undefined, p))
      else if typeoff = TYPE_ELEM_FLOAT vm then
        (if stack p = [] then Inl (Undefined, p)
         else case last (stack p) of
                VFloat f \<Rightarrow> Inr (p\<lparr>stack := butlast (stack p) @ [VFloat (FloatNeg f)]\<rparr>)
              | _ \<Rightarrow> Inl (Undefined, p))
      else lex_Error ''unary minus: numeric value expected'' p)"

text \<open>The case \<^verbatim>\<open>T_IDENT\<close> of \<^verbatim>\<open>ParseFactor\<close>: an enum value, or a class or struct.\<close>

definition ParseFactor_IDENT ::
  "(int \<Rightarrow> bool \<Rightarrow> ValueParser \<Rightarrow> vp_result) \<Rightarrow> nat \<Rightarrow> VM \<Rightarrow> TypeInfo \<Rightarrow> int \<Rightarrow> bool
    \<Rightarrow> ValueParser \<Rightarrow> vp_result" where
  "ParseFactor_IDENT rec fuel vm ti typeoff push p =
     (if ti_t ti = V_INT \<and> enumidx ti \<ge> 0 then
        (case LookupEnum vm (lex_sattr p) (enumidx ti) of
           None \<Rightarrow> lex_Error (''unknown enum value '' @ lex_sattr p) p
         | Some v \<Rightarrow> Inr (if push then PushV (VInt v) False (lex_Next p) else lex_Next p))
      else if \<not> IsUDT (ti_t ti) \<and> ti_t ti \<noteq> V_ANY then
        lex_Error (''class/struct type required, '' @ BaseTypeName vm (ti_t ti) @ '' given'') p
      else
        (case Expect vm T_LEFTCURLY (lex_Next p) of
           Inl e \<Rightarrow> Inl e
         | Inr p1 \<Rightarrow>
             if StructName vm ti \<noteq> lex_sattr p then
               (case LookupSubClass vm (lex_sattr p) ti typeoff of
                  None \<Rightarrow>
                    lex_Error (''class/struct type '' @ StructName vm ti @ '' required, '' @
                               lex_sattr p @ '' given'') p1
                | Some (ti1, typeoff1) \<Rightarrow>
                    ParseElems rec fuel vm T_RIGHTCURLY typeoff1 (ti_len ti1) push p1)
             else ParseElems rec fuel vm T_RIGHTCURLY typeoff (ti_len ti) push p1))"

text \<open>\<^verbatim>\<open>ValueParser::ParseFactor\<close>, with \<open>rec\<close> for its own calls.\<close>

definition ParseFactor_body ::
  "(int \<Rightarrow> bool \<Rightarrow> ValueParser \<Rightarrow> vp_result) \<Rightarrow> nat \<Rightarrow> VM \<Rightarrow> int \<Rightarrow> bool \<Rightarrow> ValueParser
    \<Rightarrow> vp_result" where
  "ParseFactor_body rec fuel vm typeoff0 push p =
     (let unwrap = (ti_t (GetTypeInfo vm typeoff0) = V_NIL \<and> lex_token p \<noteq> T_NIL);
          typeoff = (if unwrap then subt (GetTypeInfo vm typeoff0) else typeoff0);
          ti = GetTypeInfo vm typeoff;
          vt = ti_t ti
      in
      if lex_token p = T_INT then
        (if \<not> ExpectType_ok V_INT vt then lex_Error (ExpectType_msg vm V_INT vt) p
         else Inr (if push then PushV (VInt (lex_ival p)) False (lex_Next p) else lex_Next p))
      else if lex_token p = T_FLOAT then
        (if \<not> ExpectType_ok V_FLOAT vt then lex_Error (ExpectType_msg vm V_FLOAT vt) p
         else Inr (if push then PushV (VFloat (lex_fval p)) False (lex_Next p) else lex_Next p))
      else if lex_token p = T_STR then
        (if \<not> ExpectType_ok V_STRING vt then lex_Error (ExpectType_msg vm V_STRING vt) p
         else Inr (if push then PushV (VString (lex_sval p)) True (allocated (lex_Next p))
                   else lex_Next p))
      else if lex_token p = T_NIL then
        (if \<not> ExpectType_ok V_NIL vt then lex_Error (ExpectType_msg vm V_NIL vt) p
         else Inr (if push then PushV VNil False (lex_Next p) else lex_Next p))
      else if lex_token p = T_MINUS then
        (case rec typeoff push (lex_Next p) of
           Inl e \<Rightarrow> Inl e
         | Inr p1 \<Rightarrow> if push then negate_back vm typeoff p1 else Inr p1)
      else if lex_token p = T_LEFTBRACKET then
        (if \<not> ExpectType_ok V_VECTOR vt then lex_Error (ExpectType_msg vm V_VECTOR vt) p
         else ParseElems rec fuel vm T_RIGHTBRACKET typeoff (-1) push (lex_Next p))
      else if lex_token p = T_IDENT then ParseFactor_IDENT rec fuel vm ti typeoff push p
      else lex_Error (''illegal start of expression: '' @ TokStr vm (lex_token p)) p)"

fun ParseFactor :: "nat \<Rightarrow> VM \<Rightarrow> int \<Rightarrow> bool \<Rightarrow> ValueParser \<Rightarrow> vp_result" where
  "ParseFactor 0 vm typeoff push p = Inl (OutOfFuel, p)"
| "ParseFactor (Suc fuel) vm typeoff push p =
     ParseFactor_body (ParseFactor fuel vm) fuel vm typeoff push p"

text \<open>\<^verbatim>\<open>ValueParser::Parse\<close>.\<close>

definition ValueParser_Parse ::
  "nat \<Rightarrow> VM \<Rightarrow> int \<Rightarrow> ValueParser \<Rightarrow> (abort \<times> ValueParser) + (Value \<times> ValueParser)" where
  "ValueParser_Parse fuel vm typeoff p =
     (case ParseFactor fuel vm typeoff True p of
        Inl e \<Rightarrow> Inl e
      | Inr p1 \<Rightarrow>
          (case Expect vm T_ENDOFFILE (Gobble T_LINEFEED p1) of
             Inl e \<Rightarrow> Inl e
           | Inr p2 \<Rightarrow>
               if length (stack p2) \<noteq> 1 then Inl (AssertFailed, p2)
               else (case PopV p2 of Inl a \<Rightarrow> Inl (a, p2) | Inr (v, p3) \<Rightarrow> Inr (v, p3))))"

text \<open>The constructor of the parser over the tokens of the input.\<close>

definition ValueParser_init :: "Token list \<Rightarrow> ValueParser" where
  "ValueParser_init toks = \<lparr>stack = [], is_ref = [], live = 0, lex = toks\<rparr>"

definition ParseData :: "nat \<Rightarrow> VM \<Rightarrow> int \<Rightarrow> Token list \<Rightarrow> abort + Returned" where
  "ParseData fuel vm typeoff inp = try_catch (ValueParser_Parse fuel vm typeoff (ValueParser_init inp))"

subsection \<open>The self-describing binary parser\<close>

type_synonym fb_result = "(abort \<times> Deserializer) + Deserializer"

text \<open>\<^verbatim>\<open>FlexBufferParser::Error\<close>.\<close>

definition FlexBufferParser_Error :: "string \<Rightarrow> 'd \<Rightarrow> (abort \<times> 'd) + 'r" where
  "FlexBufferParser_Error s d = Inl (Fatal (''flexbuffers_binary_to_value: '' @ s), d)"

text \<open>
  \<^verbatim>\<open>m[key]\<close> on a flexbuffer map: the child stored under the key, a null reference
  when there is none.
\<close>

definition flex_lookup :: "(string \<times> FlexRef) list \<Rightarrow> string \<Rightarrow> FlexRef" where
  "flex_lookup m k = (case map_of m k of None \<Rightarrow> FBT_NULL | Some r \<Rightarrow> r)"

text \<open>\<^verbatim>\<open>for (size_t i = 0; i < v.size(); i++) ParseFactor(v[i], ti->subt);\<close>\<close>

fun FlexParseFactor_vector ::
  "(FlexRef \<Rightarrow> int \<Rightarrow> Deserializer \<Rightarrow> fb_result) \<Rightarrow> int \<Rightarrow> FlexRef list \<Rightarrow> Deserializer \<Rightarrow> fb_result" where
  "FlexParseFactor_vector rec elemoff [] d = Inr d"
| "FlexParseFactor_vector rec elemoff (r # rs) d =
     (case rec r elemoff d of
        Inl e \<Rightarrow> Inl e
      | Inr d1 \<Rightarrow> FlexParseFactor_vector rec elemoff rs d1)"

text \<open>
  The loop over the members of a map, \<^verbatim>\<open>for (int i = 0; NumElems() != ti->len; i++)\<close>:
  a member with no key of its name, or a null one, gets its default.
\<close>

fun FlexParseFactor_map ::
  "(FlexRef \<Rightarrow> int \<Rightarrow> Deserializer \<Rightarrow> fb_result) \<Rightarrow> nat \<Rightarrow> VM \<Rightarrow> TypeInfo
    \<Rightarrow> (string \<times> FlexRef) list \<Rightarrow> nat \<Rightarrow> int \<Rightarrow> Deserializer \<Rightarrow> fb_result" where
  "FlexParseFactor_map rec 0 vm ti m stack_start i d = Inl (OutOfFuel, d)"
| "FlexParseFactor_map rec (Suc fuel) vm ti m stack_start i d =
     (if NumElems d stack_start \<noteq> ti_len ti then
        (if flex_lookup m (LookupField vm (structidx ti) i) = FBT_NULL then
           (case PushDefault fuel vm (GetElemOrParent ti (NumElems d stack_start))
                   (fld_defval (elemtypes ti (NumElems d stack_start))) d of
              Inl e \<Rightarrow> Inl e
            | Inr (ok, d1) \<Rightarrow>
                if \<not> ok then
                  FlexBufferParser_Error
                    (''no default value exists for missing field '' @
                     LookupField vm (structidx ti) i) d1
                else FlexParseFactor_map rec fuel vm ti m stack_start (i + 1) d1)
         else
           (case rec (flex_lookup m (LookupField vm (structidx ti) i))
                   (GetElemOrParent ti (NumElems d stack_start)) d of
              Inl e \<Rightarrow> Inl e
            | Inr d1 \<Rightarrow> FlexParseFactor_map rec fuel vm ti m stack_start (i + 1) d1))
      else Inr d)"

text \<open>
  The case \<^verbatim>\<open>FBT_MAP\<close>: the sub-class named by the key \<^verbatim>\<open>_type\<close>, the members, and
  an object when the expected type \<open>vt\<close> is a class.
\<close>

definition FlexParseFactor_MAP ::
  "(FlexRef \<Rightarrow> int \<Rightarrow> Deserializer \<Rightarrow> fb_result) \<Rightarrow> nat \<Rightarrow> VM \<Rightarrow> TypeInfo \<Rightarrow> int
    \<Rightarrow> (string \<times> FlexRef) list \<Rightarrow> Deserializer \<Rightarrow> fb_result" where
  "FlexParseFactor_MAP rec fuel vm ti typeoff m d =
     (if \<not> IsUDT (ti_t ti) \<and> ti_t ti \<noteq> V_ANY then
        FlexBufferParser_Error
          (''class/struct type required, '' @ BaseTypeName vm (ti_t ti) @ '' given'') d
      else
        (case (case flex_lookup m ''_type'' of
                 FBT_STRING sname \<Rightarrow>
                   if sname \<noteq> StructName vm ti then
                     (case LookupSubClass vm sname ti typeoff of
                        None \<Rightarrow>
                          FlexBufferParser_Error
                            (''class/struct type '' @ StructName vm ti @ '' required, '' @
                             sname @ '' given'') d
                      | Some p \<Rightarrow> Inr p)
                   else Inr (ti, typeoff)
               | _ \<Rightarrow> Inr (ti, typeoff)) of
           Inl e \<Rightarrow> Inl e
         | Inr (ti1, typeoff1) \<Rightarrow>
             (case FlexParseFactor_map rec fuel vm ti1 m (length (stack d)) 0 d of
                Inl e \<Rightarrow> Inl e
              | Inr d1 \<Rightarrow>
                  if ti_t ti = V_CLASS then
                    NewObject_of_stack (NumElems d1 (length (stack d))) typeoff1 d1
                  else Inr d1)))"

text \<open>\<^verbatim>\<open>FlexBufferParser::ParseFactor\<close>, with \<open>rec\<close> for its own calls.\<close>

definition FlexParseFactor_body ::
  "(FlexRef \<Rightarrow> int \<Rightarrow> Deserializer \<Rightarrow> fb_result) \<Rightarrow> nat \<Rightarrow> VM \<Rightarrow> FlexRef \<Rightarrow> int \<Rightarrow> Deserializer
    \<Rightarrow> fb_result" where
  "FlexParseFactor_body rec fuel vm r typeoff0 d =
     (let unwrap = (ti_t (GetTypeInfo vm typeoff0) = V_NIL \<and> r \<noteq> FBT_NULL);
          typeoff = (if unwrap then subt (GetTypeInfo vm typeoff0) else typeoff0);
          ti = GetTypeInfo vm typeoff;
          vt = ti_t ti
      in
      case r of
        FBT_INT i \<Rightarrow>
          if \<not> ExpectType_ok V_INT vt
          then FlexBufferParser_Error (ExpectType_msg vm V_INT vt) d
          else Inr (PushV (VInt i) False d)
      | FBT_BOOL i \<Rightarrow>
          if \<not> ExpectType_ok V_INT vt
          then FlexBufferParser_Error (ExpectType_msg vm V_INT vt) d
          else Inr (PushV (VInt i) False d)
      | FBT_FLOAT f \<Rightarrow>
          if \<not> ExpectType_ok V_FLOAT vt
          then FlexBufferParser_Error (ExpectType_msg vm V_FLOAT vt) d
          else Inr (PushV (VFloat f) False d)
      | FBT_STRING s \<Rightarrow>
          if \<not> ExpectType_ok V_STRING vt
          then FlexBufferParser_Error (ExpectType_msg vm V_STRING vt) d
          else Inr (PushV (VString s) True (allocated d))
      | FBT_NULL \<Rightarrow>
          if \<not> ExpectType_ok V_NIL vt
          then FlexBufferParser_Error (ExpectType_msg vm V_NIL vt) d
          else Inr (PushV VNil False d)
      | FBT_VECTOR v \<Rightarrow>
          if \<not> ExpectType_ok V_VECTOR vt
          then FlexBufferParser_Error (ExpectType_msg vm V_VECTOR vt) d
          else
            (case FlexParseFactor_vector rec (subt ti) v d of
               Inl e \<Rightarrow> Inl e
             | Inr d1 \<Rightarrow>
                 NewVec_of_stack vm (NumElems d1 (length (stack d))) (subt ti) typeoff d1)
      | FBT_MAP m \<Rightarrow> FlexParseFactor_MAP rec fuel vm ti typeoff m d
      | FBT_OTHER \<Rightarrow>
          FlexBufferParser_Error
            (''can'' @ [CHR 0x27] @ ''t convert to value: '' @ ToString vm r) d)"

fun FlexParseFactor :: "nat \<Rightarrow> VM \<Rightarrow> FlexRef \<Rightarrow> int \<Rightarrow> Deserializer \<Rightarrow> fb_result" where
  "FlexParseFactor 0 vm r typeoff d = Inl (OutOfFuel, d)"
| "FlexParseFactor (Suc fuel) vm r typeoff d =
     FlexParseFactor_body (FlexParseFactor fuel vm) fuel vm r typeoff d"

text \<open>\<^verbatim>\<open>FlexBufferParser::Parse\<close> and the entry point \<^verbatim>\<open>ParseFlexData\<close>.\<close>

definition FlexBufferParser_Parse ::
  "nat \<Rightarrow> VM \<Rightarrow> int \<Rightarrow> FlexRef \<Rightarrow> Deserializer \<Rightarrow> (abort \<times> Deserializer) + (Value \<times> Deserializer)" where
  "FlexBufferParser_Parse fuel vm typeoff r d =
     (case FlexParseFactor fuel vm r typeoff d of
        Inl e \<Rightarrow> Inl e
      | Inr d1 \<Rightarrow>
          if length (stack d1) \<noteq> 1 then Inl (AssertFailed, d1)
          else (case PopV d1 of Inl a \<Rightarrow> Inl (a, d1) | Inr (v, d2) \<Rightarrow> Inr (v, d2)))"

definition ParseFlexData :: "nat \<Rightarrow> VM \<Rightarrow> int \<Rightarrow> FlexRef \<Rightarrow> abort + Returned" where
  "ParseFlexData fuel vm typeoff r =
     try_catch (FlexBufferParser_Parse fuel vm typeoff r Deserializer_init)"

subsection \<open>A small runtime for the examples\<close>

text \<open>
  Modelled from the spec: the varint decoders, which are not in the sources at hand
  (``a variable-length signed varint'', ``an unsigned varint'', ``reading past the end
  bound at any point is a fatal data truncated error''). The examples use the usual
  little-endian base-128 code, seven bits a byte, and the zig-zag code for signed
  values. The theorems below hold for every decoder.
\<close>

fun leb128 :: "char list \<Rightarrow> abort + (nat \<times> char list)" where
  "leb128 [] = Inl (Fatal ''lobster_binary_to_value: data truncated'')"
| "leb128 (b # bs) =
     (if (of_char b :: nat) < 128 then Inr (of_char b, bs)
      else (case leb128 bs of
              Inl a \<Rightarrow> Inl a
            | Inr (n, rest) \<Rightarrow> Inr (of_char b - 128 + 128 * n, rest)))"

definition zigzag :: "char list \<Rightarrow> abort + (int \<times> char list)" where
  "zigzag bs =
     (case leb128 bs of
        Inl a \<Rightarrow> Inl a
      | Inr (n, rest) \<Rightarrow> Inr (if even n then int (n div 2) else - int (Suc n div 2), rest))"

text \<open>Type descriptors: a scalar, a wrapper (vector of, nilable) and an aggregate.\<close>

definition scalar_ti :: "ValueType \<Rightarrow> TypeInfo" where
  "scalar_ti vt =
     \<lparr>ti_t = vt, subt = -1, structidx = -1, ti_len = 0,
      elemtypes = (\<lambda>i. \<lparr>fld_type = -1, fld_defval = 0\<rparr>), enumidx = -1,
      GetElemOrParent = (\<lambda>i. -1)\<rparr>"

definition wrap_ti :: "ValueType \<Rightarrow> int \<Rightarrow> TypeInfo" where
  "wrap_ti vt sub = (scalar_ti vt)\<lparr>subt := sub\<rparr>"

definition field_at :: "TIField list \<Rightarrow> int \<Rightarrow> TIField" where
  "field_at fs i =
     (if 0 \<le> i \<and> i < int (length fs) then fs ! nat i else \<lparr>fld_type = -1, fld_defval = 0\<rparr>)"

definition udt_ti :: "ValueType \<Rightarrow> int \<Rightarrow> TIField list \<Rightarrow> TypeInfo" where
  "udt_ti vt sidx fs =
     \<lparr>ti_t = vt, subt = -1, structidx = sidx, ti_len = int (length fs),
      elemtypes = field_at fs, enumidx = -1,
      GetElemOrParent = (\<lambda>i. fld_type (field_at fs i))\<rparr>"

text \<open>
  The type table of the examples:
  \<open>0\<close> int, \<open>2\<close> float, \<open>3\<close> string, \<open>5\<close> any, \<open>8\<close> vector of int, \<open>10\<close> nilable string,
  \<open>12\<close> nilable vector of int, \<open>14\<close> class Point with x (default 0) and y (default 7),
  \<open>20\<close> nilable Point, \<open>22\<close> class Animal, \<open>26\<close> its sub-class Dog with a string name,
  \<open>30\<close> struct xy of two ints, \<open>36\<close> struct Named of an int and a string,
  \<open>42\<close> class Holder of one string.
\<close>

definition ex_types :: "int \<Rightarrow> TypeInfo" where
  "ex_types off =
     (if off = 0 then scalar_ti V_INT
      else if off = 2 then scalar_ti V_FLOAT
      else if off = 3 then scalar_ti V_STRING
      else if off = 5 then scalar_ti V_ANY
      else if off = 8 then wrap_ti V_VECTOR 0
      else if off = 10 then wrap_ti V_NIL 3
      else if off = 12 then wrap_ti V_NIL 8
      else if off = 14 then
        udt_ti V_CLASS 0 [\<lparr>fld_type = 0, fld_defval = 0\<rparr>, \<lparr>fld_type = 0, fld_defval = 7\<rparr>]
      else if off = 20 then wrap_ti V_NIL 14
      else if off = 22 then udt_ti V_CLASS 1 []
      else if off = 26 then udt_ti V_CLASS 2 [\<lparr>fld_type = 3, fld_defval = 0\<rparr>]
      else if off = 30 then
        udt_ti V_STRUCT_S 3 [\<lparr>fld_type = 0, fld_defval = 0\<rparr>, \<lparr>fld_type = 0, fld_defval = 0\<rparr>]
      else if off = 36 then
        udt_ti V_STRUCT_S 4 [\<lparr>fld_type = 0, fld_defval = 0\<rparr>, \<lparr>fld_type = 3, fld_defval = 0\<rparr>]
      else if off = 42 then udt_ti V_CLASS 5 [\<lparr>fld_type = 3, fld_defval = 0\<rparr>]
      else scalar_ti V_RESOURCE)"

definition ex_names :: "int \<Rightarrow> string" where
  "ex_names sidx =
     (if sidx = 0 then ''Point'' else if sidx = 1 then ''Animal'' else if sidx = 2 then ''Dog''
      else if sidx = 3 then ''xy'' else if sidx = 4 then ''Named''
      else if sidx = 5 then ''Holder'' else ''?'')"

definition ex_vm :: VM where
  "ex_vm =
     \<lparr>GetTypeInfo = ex_types,
      UDTLookup = (\<lambda>s. if s = ''Dog'' then [\<lparr>super_idx = 1, typeidx = 26\<rparr>]
                      else if s = ''Point'' then [\<lparr>super_idx = -1, typeidx = 14\<rparr>]
                      else if s = ''Animal'' then [\<lparr>super_idx = -1, typeidx = 22\<rparr>]
                      else []),
      StructName = (\<lambda>ti. ex_names (structidx ti)),
      LookupField = (\<lambda>sidx i. ''field''),
      LookupEnum = (\<lambda>s e. None),
      GetSubClassFromSerID =
        (\<lambda>off id. if off = 14 \<and> id = 0 then 14
                  else if off = 22 \<and> id = 1 then 22
                  else if (off = 22 \<or> off = 26) \<and> id = 2 then 26
                  else if off = 42 \<and> id = 5 then 42
                  else -1),
      TYPE_ELEM_INT = 0,
      TYPE_ELEM_FLOAT = 2,
      TYPE_ELEM_ANY = 5,
      BaseTypeName = (\<lambda>vt. ''type''),
      Debug = (\<lambda>ti. ''type''),
      TokStr = (\<lambda>tt. ''token''),
      ToString = (\<lambda>r. ''node''),
      DecodeVarintU = leb128,
      DecodeVarintS = zigzag\<rparr>"

subsection \<open>Predicates of the statements\<close>


text \<open>
  The reading of a class as the specification words it: the members are read in
  declaration order, one after the other, and the members that the encoding does not
  hold are filled by the default-value synthesizer, a member with no default being
  the error ``no default value exists''.
\<close>

fun spec_read_members ::
  "(int \<Rightarrow> bin_state \<Rightarrow> bin_result) \<Rightarrow> TypeInfo \<Rightarrow> nat list \<Rightarrow> bin_state \<Rightarrow> bin_result" where
  "spec_read_members rec ti [] x = Inr x"
| "spec_read_members rec ti (k # ks) x =
     (case rec (GetElemOrParent ti (int k)) x of
        Inl e \<Rightarrow> Inl e
      | Inr x1 \<Rightarrow> spec_read_members rec ti ks x1)"

fun spec_default_members ::
  "VM \<Rightarrow> TypeInfo \<Rightarrow> nat list \<Rightarrow> Deserializer \<Rightarrow> (abort \<times> Deserializer) + Deserializer" where
  "spec_default_members vm ti [] d = Inr d"
| "spec_default_members vm ti (k # ks) d =
     (case PushDefault (Suc 0) vm (GetElemOrParent ti (int k))
             (fld_defval (elemtypes ti (int k))) d of
        Inl e \<Rightarrow> Inl e
      | Inr (ok, d1) \<Rightarrow>
          if \<not> ok then
            Inl (Fatal (''lobster_binary_to_value: no default value exists for missing field '' @
                        LookupField vm (structidx ti) (int k)), d1)
          else spec_default_members vm ti ks d1)"

text \<open>
  A class of \<open>M\<close> members read from an encoding of \<open>N\<close> elements: the first
  \<open>min N M\<close> members are read; more elements than members is the error ``extra
  fields present''; fewer, and the other members get their defaults; the object is
  built from the \<open>M\<close> slots.
\<close>

definition spec_read_class ::
  "(int \<Rightarrow> bin_state \<Rightarrow> bin_result) \<Rightarrow> VM \<Rightarrow> int \<Rightarrow> nat \<Rightarrow> nat \<Rightarrow> bin_state \<Rightarrow> bin_result" where
  "spec_read_class rec vm typeoff N M x =
     (case spec_read_members rec (GetTypeInfo vm typeoff) [0..<min N M] x of
        Inl e \<Rightarrow> Inl e
      | Inr x1 \<Rightarrow>
          if M < N then
            Inl (Fatal (''lobster_binary_to_value: extra fields presents in '' @
                        StructName vm (GetTypeInfo vm typeoff)), snd x1)
          else
            (case spec_default_members vm (GetTypeInfo vm typeoff) [N..<M] (snd x1) of
               Inl e \<Rightarrow> Inl e
             | Inr d2 \<Rightarrow>
                 (case NewObject_of_stack (int M) typeoff d2 of
                    Inl e \<Rightarrow> Inl e
                  | Inr d3 \<Rightarrow> Inr (fst x1, d3))))"

text \<open>The descriptor a parser works with: the declared one, or the one under a nilable.\<close>

definition type_under_nil :: "VM \<Rightarrow> int \<Rightarrow> TypeInfo" where
  "type_under_nil vm typeoff =
     (if ti_t (GetTypeInfo vm typeoff) = V_NIL
      then GetTypeInfo vm (subt (GetTypeInfo vm typeoff))
      else GetTypeInfo vm typeoff)"

text \<open>
  The filling of a class or struct literal as the specification words it: for each
  member the literal did not supply, in order, the default-value synthesizer; a
  member with no default fails the parse.
\<close>

fun spec_fill_members :: "VM \<Rightarrow> TypeInfo \<Rightarrow> nat list \<Rightarrow> ValueParser \<Rightarrow> vp_result" where
  "spec_fill_members vm ti [] p = Inr p"
| "spec_fill_members vm ti (k # ks) p =
     (case PushDefault (Suc 0) vm (fld_type (elemtypes ti (int k)))
             (fld_defval (elemtypes ti (int k))) p of
        Inl e \<Rightarrow> Inl e
      | Inr (ok, p1) \<Rightarrow>
          if \<not> ok then Inl (Fatal ''no default value exists for missing struct elements'', p1)
          else spec_fill_members vm ti ks p1)"

text \<open>The aggregate that closes a literal: an object, a vector, or the slots left flat.\<close>

definition spec_close_literal :: "VM \<Rightarrow> int \<Rightarrow> nat \<Rightarrow> ValueParser \<Rightarrow> vp_result" where
  "spec_close_literal vm typeoff stack_start p =
     (if ti_t (GetTypeInfo vm typeoff) = V_CLASS
      then NewObject_of_stack (NumElems p stack_start) typeoff p
      else if ti_t (GetTypeInfo vm typeoff) = V_VECTOR
      then NewVec_of_stack vm (NumElems p stack_start) (subt (GetTypeInfo vm typeoff)) typeoff p
      else Inr p)"

text \<open>Two states of the textual parser with the same scratch stack and heap count.\<close>

definition same_stack :: "ValueParser \<Rightarrow> ValueParser \<Rightarrow> bool" where
  "same_stack p p' = (stack p' = stack p \<and> is_ref p' = is_ref p \<and> live p' = live p)"

text \<open>
  The flags are accurate: the two sequences have the same length and a slot is
  flagged exactly when it holds a heap object.
\<close>

definition flags_ok :: "'a Deserializer_scheme \<Rightarrow> bool" where
  "flags_ok d = (is_ref d = map is_heap (stack d))"

text \<open>
  A property of the deserializer holds in the state a call ends in: the state it
  returns (read from the result by \<open>f\<close>), or the state in which it gave up.
\<close>

definition holds_after :: "('d \<Rightarrow> bool) \<Rightarrow> (abort \<times> 'd) + 'r \<Rightarrow> ('r \<Rightarrow> 'd) \<Rightarrow> bool" where
  "holds_after P r f = (case r of Inl (a, d) \<Rightarrow> P d | Inr x \<Rightarrow> P (f x))"

text \<open>
  What an entry point hands to its caller, against what its parser did: the value
  and no error when the parse returned; nil and the message when it threw a string;
  no return otherwise.
\<close>

definition value_or_error ::
  "(abort \<times> 'a Deserializer_scheme) + (Value \<times> 'a Deserializer_scheme) \<Rightarrow> abort + Returned \<Rightarrow> bool" where
  "value_or_error body res =
     (case body of
        Inr (v, d) \<Rightarrow>
          (case res of Inr r \<Rightarrow> ret_value r = v \<and> ret_error r = VNil | Inl a \<Rightarrow> False)
      | Inl (Fatal s, d) \<Rightarrow>
          (case res of Inr r \<Rightarrow> ret_value r = VNil \<and> ret_error r = VString s | Inl a \<Rightarrow> False)
      | Inl (a, d) \<Rightarrow> res = Inl a)"

section \<open>Properties\<close>

subsection \<open>Evaluating the example runtime\<close>

lemma ex_vm_simps:
  "GetTypeInfo ex_vm = ex_types"
  "UDTLookup ex_vm ''Cat'' = []"
  "UDTLookup ex_vm ''Dog'' = [\<lparr>super_idx = 1, typeidx = 26\<rparr>]"
  "StructName ex_vm ti = ex_names (structidx ti)"
  "DecodeVarintU ex_vm = leb128"
  "DecodeVarintS ex_vm = zigzag"
  "TYPE_ELEM_INT ex_vm = 0"
  "TYPE_ELEM_FLOAT ex_vm = 2"
  "TYPE_ELEM_ANY ex_vm = 5"
  "LookupField ex_vm sidx i = ''field''"
  by (simp_all add: ex_vm_def)

lemma ex_types_simps:
  "ex_types 0 = scalar_ti V_INT"
  "ex_types 2 = scalar_ti V_FLOAT"
  "ex_types 3 = scalar_ti V_STRING"
  "ex_types 5 = scalar_ti V_ANY"
  "ex_types 8 = wrap_ti V_VECTOR 0"
  "ex_types 10 = wrap_ti V_NIL 3"
  "ex_types 12 = wrap_ti V_NIL 8"
  "ex_types 14 = udt_ti V_CLASS 0 [\<lparr>fld_type = 0, fld_defval = 0\<rparr>, \<lparr>fld_type = 0, fld_defval = 7\<rparr>]"
  "ex_types 20 = wrap_ti V_NIL 14"
  "ex_types 22 = udt_ti V_CLASS 1 []"
  "ex_types 26 = udt_ti V_CLASS 2 [\<lparr>fld_type = 3, fld_defval = 0\<rparr>]"
  "ex_types 30 = udt_ti V_STRUCT_S 3 [\<lparr>fld_type = 0, fld_defval = 0\<rparr>, \<lparr>fld_type = 0, fld_defval = 0\<rparr>]"
  "ex_types 36 = udt_ti V_STRUCT_S 4 [\<lparr>fld_type = 0, fld_defval = 0\<rparr>, \<lparr>fld_type = 3, fld_defval = 0\<rparr>]"
  "ex_types 42 = udt_ti V_CLASS 5 [\<lparr>fld_type = 3, fld_defval = 0\<rparr>]"
  by (simp_all add: ex_types_def)

lemma ti_simps [simp]:
  "ti_t (scalar_ti vt) = vt"
  "ti_t (wrap_ti vt sub) = vt"
  "subt (wrap_ti vt sub) = sub"
  "ti_t (udt_ti vt sidx fs) = vt"
  "structidx (udt_ti vt sidx fs) = sidx"
  "ti_len (udt_ti vt sidx fs) = int (length fs)"
  "elemtypes (udt_ti vt sidx fs) = field_at fs"
  "GetElemOrParent (udt_ti vt sidx fs) i = fld_type (field_at fs i)"
  "enumidx (scalar_ti vt) = -1"
  by (simp_all add: scalar_ti_def wrap_ti_def udt_ti_def)

subsection \<open>The scratch stack and the aggregates built from it\<close>

lemma stack_PushV [simp]: "stack (PushV v ir d) = stack d @ [v]"
  and is_ref_PushV [simp]: "is_ref (PushV v ir d) = is_ref d @ [ir]"
  and live_PushV [simp]: "live (PushV v ir d) = live d"
  by (simp_all add: PushV_def)

lemma stack_allocated [simp]: "stack (allocated d) = stack d"
  and is_ref_allocated [simp]: "is_ref (allocated d) = is_ref d"
  and live_allocated [simp]: "live (allocated d) = Suc (live d)"
  by (simp_all add: allocated_def)

lemma PopVN_Inr:
  "PopVN n d = Inr d' \<Longrightarrow>
     n \<le> length (stack d) \<and> n \<le> length (is_ref d) \<and>
     stack d' = take (length (stack d) - n) (stack d) \<and>
     is_ref d' = take (length (is_ref d) - n) (is_ref d) \<and> live d' = live d"
  by (auto simp: PopVN_def split: if_splits)

lemma NewObject_of_stack_Inr:
  assumes "NewObject_of_stack len typeoff d = Inr d'"
  shows "0 \<le> len \<and> nat len \<le> length (stack d) \<and>
         stack d' = take (length (stack d) - nat len) (stack d) @
                    [VObject typeoff (drop (length (stack d) - nat len) (stack d))] \<and>
         is_ref d' = take (length (is_ref d) - nat len) (is_ref d) @ [True] \<and>
         live d' = Suc (live d)"
proof -
  from assms have len: "0 \<le> len" "nat len \<le> length (stack d)"
    by (auto simp: NewObject_of_stack_def split: if_splits)
  with assms obtain d1 where p: "PopVN (nat len) (allocated d) = Inr d1"
    and d': "d' = PushV (VObject typeoff (drop (length (stack d) - nat len) (stack d))) True d1"
    by (auto simp: NewObject_of_stack_def Let_def split: if_splits sum.splits)
  from PopVN_Inr [OF p] d' len show ?thesis by simp
qed

lemma NewVec_of_stack_Inr:
  assumes "NewVec_of_stack vm len elemoff typeoff d = Inr d'"
  shows "0 \<le> len \<and> nat len \<le> length (stack d) \<and>
         (\<exists>vs. stack d' = take (length (stack d) - nat len) (stack d) @ [VVector typeoff vs]) \<and>
         is_ref d' = take (length (is_ref d) - nat len) (is_ref d) @ [True] \<and>
         live d' = Suc (live d)"
proof -
  from assms have len: "0 \<le> len" "nat len \<le> length (stack d)"
    by (auto simp: NewVec_of_stack_def Let_def split: if_splits)
  with assms obtain d1 vs where p: "PopVN (nat len) (allocated d) = Inr d1"
    and d': "d' = PushV (VVector typeoff vs) True d1"
    by (auto simp: NewVec_of_stack_def Let_def split: if_splits sum.splits)
  from PopVN_Inr [OF p] d' len show ?thesis by simp
qed

lemma cast_int_0 [simp]: "cast_int 0 = 0"
  by (simp add: cast_int_def)




subsection \<open>The by-name sub-class resolver\<close>

lemma LookupSubClass_loop_find:
  "LookupSubClass_loop vm udts ti =
     (case find (\<lambda>udt. super_idx udt = structidx ti \<and> 0 \<le> typeidx udt) udts of
        None \<Rightarrow> None
      | Some udt \<Rightarrow> Some (GetTypeInfo vm (typeidx udt), typeidx udt))"
  by (induction udts) (simp_all add: Let_def)

lemma FlexParseFactor_MAP_unresolved:
  assumes "IsUDT (ti_t ti) \<or> ti_t ti = V_ANY"
    and "flex_lookup m ''_type'' = FBT_STRING sname"
    and "sname \<noteq> StructName vm ti"
    and "LookupSubClass vm sname ti typeoff = None"
  shows "FlexParseFactor_MAP rec fuel vm ti typeoff m d =
           Inl (Fatal (''flexbuffers_binary_to_value: class/struct type '' @ StructName vm ti @
                       '' required, '' @ sname @ '' given''), d)"
  using assms by (auto simp: FlexParseFactor_MAP_def FlexBufferParser_Error_def)

text \<open>
  Claim C9. \<^verbatim>\<open>LookupSubClass\<close>, given a class name and the expected base, returns the
  first of the types known under that name whose declared super type is the
  structure index of the base and whose type offset is set (not negative); the test
  is on the direct super type only. With no such type it returns the null pair, and
  the self-describing parser, for a map whose \<^verbatim>\<open>_type\<close> names another type than the
  expected one, then fails with the message that the expected class was required.
\<close>

theorem LookupSubClass_first_direct:
  "LookupSubClass vm sname ti typeoff =
     (case find (\<lambda>udt. super_idx udt = structidx ti \<and> 0 \<le> typeidx udt) (UDTLookup vm sname) of
        None \<Rightarrow> None
      | Some udt \<Rightarrow> Some (GetTypeInfo vm (typeidx udt), typeidx udt))
   \<and> ((IsUDT (ti_t ti) \<or> ti_t ti = V_ANY) \<longrightarrow>
        flex_lookup m ''_type'' = FBT_STRING sname \<longrightarrow>
        sname \<noteq> StructName vm ti \<longrightarrow>
        LookupSubClass vm sname ti typeoff = None \<longrightarrow>
        FlexParseFactor_MAP rec fuel vm ti typeoff m d =
          Inl (Fatal (''flexbuffers_binary_to_value: class/struct type '' @ StructName vm ti @
                      '' required, '' @ sname @ '' given''), d))"
  using FlexParseFactor_MAP_unresolved [of ti m sname vm typeoff rec fuel d]
  by (simp add: LookupSubClass_def LookupSubClass_loop_find)

theorem LookupSubClass_first_direct_witness:
  "LookupSubClass ex_vm ''Dog'' (ex_types 22) 22 = Some (ex_types 26, 26)
   \<and> LookupSubClass ex_vm ''Cat'' (ex_types 22) 22 = None
   \<and> FlexParseFactor_MAP (FlexParseFactor 0 ex_vm) 0 ex_vm (ex_types 22) 22
        [(''_type'', FBT_STRING ''Cat'')] Deserializer_init =
      Inl (Fatal ''flexbuffers_binary_to_value: class/struct type Animal required, Cat given'',
           Deserializer_init)"
proof -
  have dog: "LookupSubClass ex_vm ''Dog'' (ex_types 22) 22 = Some (ex_types 26, 26)"
    using LookupSubClass_first_direct [of ex_vm "''Dog''" "ex_types 22" 22]
    by (simp add: ex_vm_simps ex_types_def udt_ti_def)
  have cat: "LookupSubClass ex_vm ''Cat'' (ex_types 22) 22 = None"
    using LookupSubClass_first_direct [of ex_vm "''Cat''" "ex_types 22" 22]
    by (simp add: ex_vm_simps)
  have "FlexParseFactor_MAP (FlexParseFactor 0 ex_vm) 0 ex_vm (ex_types 22) 22
        [(''_type'', FBT_STRING ''Cat'')] Deserializer_init =
      Inl (Fatal (''flexbuffers_binary_to_value: class/struct type '' @
                  StructName ex_vm (ex_types 22) @ '' required, '' @ ''Cat'' @ '' given''),
           Deserializer_init)"
    using LookupSubClass_first_direct [of ex_vm "''Cat''" "ex_types 22" 22
        "[(''_type'', FBT_STRING ''Cat'')]" "FlexParseFactor 0 ex_vm" 0 Deserializer_init] cat
    by (simp add: ex_vm_simps ex_types_def udt_ti_def IsUDT_def flex_lookup_def ex_names_def)
  then show ?thesis using dog cat
    by (simp add: ex_vm_simps ex_types_def udt_ti_def ex_names_def)
qed

subsection \<open>The schema-driven binary parser: nil\<close>

declare ParseElem.simps(2) [simp del]




subsection \<open>The default-value synthesizer\<close>

lemma PushDefault_scalar:
  "ti_t (GetTypeInfo vm typeoff) = V_INT \<Longrightarrow>
     PushDefault (Suc fuel) vm typeoff defval d = Inr (True, PushV (VInt defval) False d)"
  "ti_t (GetTypeInfo vm typeoff) = V_FLOAT \<Longrightarrow>
     PushDefault (Suc fuel) vm typeoff defval d =
       Inr (True, PushV (VFloat (int2float defval)) False d)"
  "ti_t (GetTypeInfo vm typeoff) = V_NIL \<Longrightarrow>
     PushDefault (Suc fuel) vm typeoff defval d = Inr (True, PushV VNil False d)"
  "ti_t (GetTypeInfo vm typeoff) = V_VECTOR \<Longrightarrow>
     PushDefault (Suc fuel) vm typeoff defval d =
       Inr (True, PushV (VVector typeoff []) True (allocated d))"
  by (simp_all add: Let_def)

lemma PushDefault_no_default:
  "ti_t (GetTypeInfo vm typeoff) \<in> {V_STRING, V_ANY, V_RESOURCE, V_FUNCTION} \<Longrightarrow>
     PushDefault (Suc fuel) vm typeoff defval d = Inr (False, d)"
  by (auto simp: Let_def)

text \<open>
  Claim C8, at the input where the code leaves it. \<^verbatim>\<open>PushDefault\<close> drops the result of
  the call it makes for each member. For the struct \<open>Named\<close> of an int and a string it
  pushes the int, nothing for the string, and returns true; for the class \<open>Holder\<close>
  of one string it pushes no member, builds the object from the slot that was on the
  stack before the call, and returns true. Only a type that has no default itself,
  such as string, gives false with nothing pushed.
\<close>

theorem PushDefault_ignores_member_failure:
  "PushDefault 5 ex_vm 36 0 Deserializer_init =
     Inr (True, \<lparr>stack = [VInt 0], is_ref = [False], live = 0\<rparr>)
   \<and> PushDefault 5 ex_vm 42 0 \<lparr>stack = [VInt 1], is_ref = [False], live = 0\<rparr> =
     Inr (True, \<lparr>stack = [VObject 42 [VInt 1]], is_ref = [True], live = 1\<rparr>)
   \<and> PushDefault 1 ex_vm 3 0 Deserializer_init = Inr (False, Deserializer_init)"
  by code_simp

subsection \<open>The schema-driven binary parser: the end of the data\<close>

lemma ParseElem_STRING_past_end:
  assumes "DecodeVarintU vm (fst x) = Inr (len, data1)" and "length data1 < len"
    and "len \<noteq> 0 \<or> ti_t base_ti \<noteq> V_NIL"
  shows "ParseElem_STRING vm base_ti x = Inl (Undefined, snd x)"
  using assms by (auto simp: ParseElem_STRING_def)

lemma ParseElem_FLOAT_truncated:
  "length (fst x) < 4 \<Longrightarrow>
     ParseElem_FLOAT x = Inl (Fatal ''lobster_binary_to_value: data truncated'', snd x)"
  by (simp add: ParseElem_FLOAT_def Truncated_def LobsterBinaryParser_Error_def)

lemma ParseElem_empty_truncated:
  "ParseElem (Suc fuel) vm typeoff ([], d) =
     Inl (Fatal ''lobster_binary_to_value: data truncated'', d)"
  by (simp add: ParseElem.simps(2) ParseElem_body_def Let_def Truncated_def
        LobsterBinaryParser_Error_def)

text \<open>
  Claim C3, at the input where the code leaves it. A string announced with five
  bytes of which one is there: \<^verbatim>\<open>ParseElem\<close> builds the \<^verbatim>\<open>string_view\<close> of five bytes
  with no look at \<^verbatim>\<open>end\<close>, a read past the buffer, and raises nothing. A float cut
  short, whose case has the check, gives the error ``data truncated''.
\<close>

theorem truncated_string_reads_past_end:
  "ParseLobsterBinaryData 1 ex_vm 3 [CHR 0x05, CHR 0x61] = Inl Undefined
   \<and> ParseLobsterBinaryData 1 ex_vm 2 [CHR 0x01, CHR 0x02] =
       Inr \<lparr>ret_value = VNil, ret_error = VString ''lobster_binary_to_value: data truncated'',
            released = [], alive = 1\<rparr>"
  by code_simp

subsection \<open>The schema-driven binary parser: a class and its encoded count\<close>

lemma PushDefault_flat:
  assumes "ti_t (GetTypeInfo vm t) \<notin> {V_STRUCT_S, V_STRUCT_R, V_CLASS}"
  shows "PushDefault (Suc f) vm t dv d = PushDefault (Suc 0) vm t dv d"
    and "PushDefault (Suc f) vm t dv d = Inr (ok, d') \<Longrightarrow>
           (if ok then length (stack d') = Suc (length (stack d)) else d' = d)"
  using assms by (auto simp: Let_def split: if_splits)

lemma ParseElem_class_eq:
  assumes len: "ti_len ti = int M"
    and N: "N = nat elen"
    and one: "\<And>k x x'. k < min N M \<Longrightarrow> rec (GetElemOrParent ti (int k)) x = Inr x' \<Longrightarrow>
                length (stack (snd x')) = Suc (length (stack (snd x)))"
    and flat: "\<And>k. N \<le> k \<Longrightarrow> k < M \<Longrightarrow>
                ti_t (GetTypeInfo vm (GetElemOrParent ti (int k))) \<notin> {V_STRUCT_S, V_STRUCT_R, V_CLASS}"
  shows "i \<le> M \<Longrightarrow> length (stack (snd x)) = start + i \<Longrightarrow> M - i < fuel \<Longrightarrow>
     ParseElem_class rec fuel vm ti elen start (int i) x =
       (case spec_read_members rec ti [i..<min N M] x of
          Inl e \<Rightarrow> Inl e
        | Inr x1 \<Rightarrow>
            (case spec_default_members vm ti [max i N..<M] (snd x1) of
               Inl e \<Rightarrow> Inl e
             | Inr d2 \<Rightarrow> Inr (fst x1, d2)))"
proof (induction "M - i" arbitrary: i x fuel)
  case 0
  then have iM: "i = M" by simp
  from 0 obtain f where f: "fuel = Suc f" by (cases fuel) auto
  have ne: "NumElems (snd x) start = ti_len ti"
    using 0 iM len by (simp add: NumElems_def)
  show ?case using ne iM by (simp add: f)
next
  case (Suc n)
  then have iM: "i < M" by simp
  have el: "(elen \<le> int i) = (N \<le> i)" using N by auto
  from Suc obtain f where f: "fuel = Suc f" and ff: "M - Suc i < f" by (cases fuel) auto
  have ne: "NumElems (snd x) start = int i"
    using Suc.prems by (simp add: NumElems_def)
  have nne: "NumElems (snd x) start \<noteq> ti_len ti"
    using ne iM len by simp
  have n': "n = M - Suc i" using Suc.hyps by simp
  show ?case
  proof (cases "i < N")
    case True
    then have upt: "[i..<min N M] = i # [Suc i..<min N M]"
      using iM by (simp add: upt_conv_Cons)
    have mx: "max i N = N" "max (Suc i) N = N" using True by simp_all
    show ?thesis
    proof (cases "rec (GetElemOrParent ti (int i)) x")
      case (Inl e)
      then show ?thesis using nne ne True el by (simp add: f upt)
    next
      case (Inr x1)
      have l1: "length (stack (snd x1)) = start + Suc i"
        using one [OF _ Inr] True iM Suc.prems by simp
      have ih: "ParseElem_class rec f vm ti elen start (int (Suc i)) x1 =
        (case spec_read_members rec ti [Suc i..<min N M] x1 of
           Inl e \<Rightarrow> Inl e
         | Inr x1 \<Rightarrow>
            (case spec_default_members vm ti [max (Suc i) N..<M] (snd x1) of
               Inl e \<Rightarrow> Inl e
             | Inr d2 \<Rightarrow> Inr (fst x1, d2)))"
        using Suc.hyps(1) [OF n' _ l1 ff] iM by simp
      have "int i + 1 = int (Suc i)" by simp
      with ih have ih': "ParseElem_class rec f vm ti elen start (int i + 1) x1 =
        (case spec_read_members rec ti [Suc i..<min N M] x1 of
           Inl e \<Rightarrow> Inl e
         | Inr x1 \<Rightarrow>
            (case spec_default_members vm ti [N..<M] (snd x1) of
               Inl e \<Rightarrow> Inl e
             | Inr d2 \<Rightarrow> Inr (fst x1, d2)))"
        by (simp only: mx)
      show ?thesis unfolding mx(1) using nne ne True Inr ih' el
        by (simp add: f upt)
    qed
  next
    case False
    then have Ni: "N \<le> i" by simp
    have upt: "[i..<min N M] = []" using Ni by simp
    have mx: "max i N = i" "max (Suc i) N = Suc i" using Ni by simp_all
    have upt2: "[i..<M] = i # [Suc i..<M]" using iM by (simp add: upt_conv_Cons)
    have upt3: "[Suc i..<min N M] = []" using Ni by simp
    note fl = flat [OF Ni iM]
    obtain f' where f': "f = Suc f'" using ff by (cases f) auto
    have pd: "PushDefault f vm (GetElemOrParent ti (int i)) (fld_defval (elemtypes ti (int i))) (snd x)
            = PushDefault (Suc 0) vm (GetElemOrParent ti (int i)) (fld_defval (elemtypes ti (int i))) (snd x)"
      unfolding f' by (rule PushDefault_flat(1) [OF fl])
    show ?thesis
    proof (cases "PushDefault (Suc 0) vm (GetElemOrParent ti (int i)) (fld_defval (elemtypes ti (int i))) (snd x)")
      case (Inl e)
      then show ?thesis using nne ne Ni pd el by (simp add: f upt upt2 mx)
    next
      case (Inr r)
      obtain ok d1 where r: "r = (ok, d1)" by (cases r)
      show ?thesis
      proof (cases ok)
        case False
        then show ?thesis using nne ne Ni pd Inr r el
          by (simp add: f upt upt2 mx LobsterBinaryParser_Error_def)
      next
        case True
        have l1: "length (stack (snd (fst x, d1))) = start + Suc i"
          using PushDefault_flat(2) [OF fl, of 0 "fld_defval (elemtypes ti (int i))" "snd x" ok d1]
            Inr r True Suc.prems by simp
        have ih: "ParseElem_class rec f vm ti elen start (int (Suc i)) (fst x, d1) =
          (case spec_read_members rec ti [Suc i..<min N M] (fst x, d1) of
             Inl e \<Rightarrow> Inl e
           | Inr x1 \<Rightarrow>
              (case spec_default_members vm ti [max (Suc i) N..<M] (snd x1) of
                 Inl e \<Rightarrow> Inl e
               | Inr d2 \<Rightarrow> Inr (fst x1, d2)))"
          using Suc.hyps(1) [OF n' _ l1 ff] iM by simp
        have "int i + 1 = int (Suc i)" by simp
        with ih have ih': "ParseElem_class rec f vm ti elen start (int i + 1) (fst x, d1) =
          (case spec_default_members vm ti [Suc i..<M] d1 of
                 Inl e \<Rightarrow> Inl e
               | Inr d2 \<Rightarrow> Inr (fst x, d2))"
          by (simp only: mx upt3 spec_read_members.simps sum.case fst_conv snd_conv)
        show ?thesis using nne ne Ni pd Inr r True ih' el
          by (simp add: f upt upt2 mx)
      qed
    qed
  qed
qed


lemma ParseElem_INT_one:
  "ParseElem_INT vm x = Inr x' \<Longrightarrow> length (stack (snd x')) = Suc (length (stack (snd x)))"
  by (auto simp: ParseElem_INT_def split: sum.splits)

lemma ParseElem_FLOAT_one:
  "ParseElem_FLOAT x = Inr x' \<Longrightarrow> length (stack (snd x')) = Suc (length (stack (snd x)))"
  by (auto simp: ParseElem_FLOAT_def Truncated_def LobsterBinaryParser_Error_def split: if_splits)

lemma ParseElem_STRING_one:
  "ParseElem_STRING vm base_ti x = Inr x' \<Longrightarrow>
     length (stack (snd x')) = Suc (length (stack (snd x)))"
  by (auto simp: ParseElem_STRING_def split: sum.splits if_splits)

lemma ParseElem_VECTOR_one:
  assumes r: "ParseElem_VECTOR rec vm base_ti ti typeoff x = Inr x'"
  shows "length (stack (snd x')) = Suc (length (stack (snd x)))"
proof -
  from r obtain n data1 where dec: "DecodeVarintU vm (fst x) = Inr (n, data1)"
    by (auto simp: ParseElem_VECTOR_def split: sum.splits)
  show ?thesis
  proof (cases "n = 0 \<and> ti_t base_ti = V_NIL")
    case True
    with r dec show ?thesis by (auto simp: ParseElem_VECTOR_def)
  next
    case False
    with r dec obtain d2 where
      nv: "NewVec_of_stack vm (NumElems d2 (length (stack (snd x)))) (subt ti) typeoff d2 = Inr (snd x')"
      by (auto simp: ParseElem_VECTOR_def Let_def split: sum.splits prod.splits)
    from NewVec_of_stack_Inr [OF nv] show ?thesis
      by (auto simp: NumElems_def)
  qed
qed

lemma ParseElem_CLASS_one:
  assumes r: "ParseElem_CLASS rec fuel vm base_ti ti typeoff x = Inr x'"
  shows "length (stack (snd x')) = Suc (length (stack (snd x)))"
proof -
  from r obtain n data1 where dec: "DecodeVarintU vm (fst x) = Inr (n, data1)"
    by (auto simp: ParseElem_CLASS_def split: sum.splits)
  show ?thesis
  proof (cases "cast_int n = 0 \<and> ti_t base_ti = V_NIL")
    case True
    with r dec show ?thesis by (auto simp: ParseElem_CLASS_def)
  next
    case False
    with r dec obtain d3 ty where
      nv: "NewObject_of_stack (NumElems d3 (length (stack (snd x)))) ty d3 = Inr (snd x')"
      by (auto simp: ParseElem_CLASS_def Let_def LobsterBinaryParser_Error_def
               split: sum.splits prod.splits if_splits)
    from NewObject_of_stack_Inr [OF nv] show ?thesis
      by (auto simp: NumElems_def)
  qed
qed

lemma ParseElem_one_slot:
  assumes r: "ParseElem fuel vm typeoff x = Inr x'"
    and ns: "\<not> IsStruct (ti_t (type_under_nil vm typeoff))"
  shows "length (stack (snd x')) = Suc (length (stack (snd x)))"
proof (cases fuel)
  case 0
  with r show ?thesis by simp
next
  case (Suc f)
  let ?ti = "type_under_nil vm typeoff"
  from r have b: "ParseElem_body (ParseElem f vm) f vm typeoff x = Inr x'"
    by (simp add: Suc ParseElem.simps(2))
  have ne: "fst x \<noteq> []"
    using b by (auto simp: ParseElem_body_def Let_def Truncated_def LobsterBinaryParser_Error_def)
  consider (i) "ti_t ?ti = V_INT" | (f) "ti_t ?ti = V_FLOAT" | (s) "ti_t ?ti = V_STRING"
    | (v) "ti_t ?ti = V_VECTOR" | (c) "ti_t ?ti = V_CLASS"
    | (o) "ti_t ?ti \<in> {V_NIL, V_ANY, V_RESOURCE, V_FUNCTION}"
    using ns by (cases "ti_t ?ti") (auto simp: IsStruct_def)
  then show ?thesis
  proof cases
    case i
    with b ne have "ParseElem_INT vm x = Inr x'"
      by (simp add: ParseElem_body_def Let_def type_under_nil_def split: if_splits)
    then show ?thesis by (rule ParseElem_INT_one)
  next
    case f
    with b ne have "ParseElem_FLOAT x = Inr x'"
      by (simp add: ParseElem_body_def Let_def type_under_nil_def split: if_splits)
    then show ?thesis by (rule ParseElem_FLOAT_one)
  next
    case s
    with b ne have "ParseElem_STRING vm (GetTypeInfo vm typeoff) x = Inr x'"
      by (simp add: ParseElem_body_def Let_def type_under_nil_def split: if_splits)
    then show ?thesis by (rule ParseElem_STRING_one)
  next
    case v
    with b ne obtain ti to where "ParseElem_VECTOR (ParseElem f vm) vm (GetTypeInfo vm typeoff) ti to x = Inr x'"
      by (simp add: ParseElem_body_def Let_def type_under_nil_def split: if_splits)
    then show ?thesis by (rule ParseElem_VECTOR_one)
  next
    case c
    with b ne obtain ti to where "ParseElem_CLASS (ParseElem f vm) f vm (GetTypeInfo vm typeoff) ti to x = Inr x'"
      by (simp add: ParseElem_body_def Let_def type_under_nil_def split: if_splits)
    then show ?thesis by (rule ParseElem_CLASS_one)
  next
    case o
    with b ne show ?thesis
      by (auto simp: ParseElem_body_def Let_def type_under_nil_def LobsterBinaryParser_Error_def
               split: if_splits)
  qed
qed


lemma ParseElem_class_exit:
  "ParseElem_class rec fuel vm ti elen start i x = Inr x' \<Longrightarrow>
     NumElems (snd x') start = ti_len ti"
proof (induction fuel arbitrary: i x)
  case 0
  then show ?case by simp
next
  case (Suc fuel)
  show ?case
  proof (cases "NumElems (snd x) start \<noteq> ti_len ti")
    case False
    with Suc.prems show ?thesis by simp
  next
    case True
    show ?thesis
    proof (cases "NumElems (snd x) start \<ge> elen")
      case ge: True
      with True Suc.prems obtain d1 where
        "ParseElem_class rec fuel vm ti elen start (i + 1) (fst x, d1) = Inr x'"
        by (auto simp: LobsterBinaryParser_Error_def split: sum.splits prod.splits if_splits)
      then show ?thesis by (rule Suc.IH)
    next
      case lt: False
      with True Suc.prems obtain x1 where
        "ParseElem_class rec fuel vm ti elen start (i + 1) x1 = Inr x'"
        by (auto split: sum.splits)
      then show ?thesis by (rule Suc.IH)
    qed
  qed
qed

text \<open>
  The parser reads the announced count through the cast to \<^verbatim>\<open>int\<close>. With \<open>N\<close> the
  count so read (zero for a negative one) and \<open>M\<close> the members of the descriptor, the
  first \<open>min N M\<close> members are read in declaration order; with \<open>N < M\<close> the members
  \<open>N\<close> to \<open>M - 1\<close> are filled by the default-value synthesizer, and the object has \<open>M\<close>
  members; with \<open>N > M\<close> the parse fails, once the \<open>M\<close> members are read, with ``extra
  fields presents''. The members read are not by-value structs and the members filled
  are not aggregates, so that a member is one slot of the stack.
\<close>

lemma ParseElem_reads_class:
  assumes cls: "ti_t (type_under_nil vm typeoff0) = V_CLASS"
    and typeoff: "typeoff = (if ti_t (GetTypeInfo vm typeoff0) = V_NIL
                            then subt (GetTypeInfo vm typeoff0) else typeoff0)"
    and ne: "data \<noteq> []"
    and dec1: "DecodeVarintU vm data = Inr (n, data1)"
    and N: "N = nat (cast_int n)"
    and notnil: "cast_int n \<noteq> 0 \<or> ti_t (GetTypeInfo vm typeoff0) \<noteq> V_NIL"
    and dec2: "DecodeVarintU vm data1 = Inr (ser_id, data2)"
    and sub: "GetSubClassFromSerID vm typeoff (cast_uint32 ser_id) = typeoff1"
    and pos: "0 \<le> typeoff1"
    and M: "ti_len (GetTypeInfo vm typeoff1) = int M"
    and fuel: "M < fuel"
    and rd: "\<forall>k<min N M. \<not> IsStruct (ti_t (type_under_nil vm
                 (GetElemOrParent (GetTypeInfo vm typeoff1) (int k))))"
    and flat: "\<forall>k. N \<le> k \<and> k < M \<longrightarrow>
                 ti_t (GetTypeInfo vm (GetElemOrParent (GetTypeInfo vm typeoff1) (int k)))
                   \<notin> {V_STRUCT_S, V_STRUCT_R, V_CLASS}"
  shows "ParseElem (Suc fuel) vm typeoff0 (data, d) =
           spec_read_class (ParseElem fuel vm) vm typeoff1 N M (data2, d)"
proof -
  let ?rec = "ParseElem fuel vm"
  let ?ti1 = "GetTypeInfo vm typeoff1"
  let ?start = "length (stack d)"
  let ?elen = "cast_int n"
  have nz: "\<not> (?elen = 0 \<and> ti_t (GetTypeInfo vm typeoff0) = V_NIL)" using notnil by simp
  have gt: "(?elen > int M) = (M < N)" using N by auto
  have one: "\<And>k x x'. k < min N M \<Longrightarrow> ?rec (GetElemOrParent ?ti1 (int k)) x = Inr x' \<Longrightarrow>
                length (stack (snd x')) = Suc (length (stack (snd x)))"
    using rd ParseElem_one_slot by blast
  have fl: "\<And>k. N \<le> k \<Longrightarrow> k < M \<Longrightarrow>
              ti_t (GetTypeInfo vm (GetElemOrParent ?ti1 (int k))) \<notin> {V_STRUCT_S, V_STRUCT_R, V_CLASS}"
    using flat by blast
  have loop: "ParseElem_class ?rec fuel vm ?ti1 ?elen ?start 0 (data2, d) =
       (case spec_read_members ?rec ?ti1 [0..<min N M] (data2, d) of
          Inl e \<Rightarrow> Inl e
        | Inr x1 \<Rightarrow>
            (case spec_default_members vm ?ti1 [max 0 N..<M] (snd x1) of
               Inl e \<Rightarrow> Inl e
             | Inr d2 \<Rightarrow> Inr (fst x1, d2)))"
    using ParseElem_class_eq [of ?ti1 M N ?elen ?rec vm 0 "(data2, d)" ?start fuel, OF M N one fl]
      fuel
    by simp
  have code: "ParseElem (Suc fuel) vm typeoff0 (data, d) =
      (case ParseElem_class ?rec fuel vm ?ti1 ?elen ?start 0 (data2, d) of
         Inl e \<Rightarrow> Inl e
       | Inr x3 \<Rightarrow>
           if ?elen > NumElems (snd x3) ?start then
             Inl (Fatal (''lobster_binary_to_value: extra fields presents in '' @
                         StructName vm ?ti1), snd x3)
           else
             (case NewObject_of_stack (NumElems (snd x3) ?start) typeoff1 (snd x3) of
                Inl e \<Rightarrow> Inl e
              | Inr d4 \<Rightarrow> Inr (fst x3, d4)))"
    using cls ne dec1 dec2 nz sub pos typeoff
    by (simp add: ParseElem.simps(2) ParseElem_body_def ParseElem_CLASS_def Let_def
          type_under_nil_def LobsterBinaryParser_Error_def
          split: sum.splits prod.splits if_splits)
  show ?thesis
  proof (cases "spec_read_members ?rec ?ti1 [0..<min N M] (data2, d)")
    case (Inl e)
    then show ?thesis by (simp add: code loop spec_read_class_def)
  next
    case (Inr x1)
    show ?thesis
    proof (cases "M < N")
      case True
      then have l: "ParseElem_class ?rec fuel vm ?ti1 ?elen ?start 0 (data2, d) = Inr x1"
        using Inr by (simp add: loop)
      from ParseElem_class_exit [OF l] M have "NumElems (snd x1) ?start = int M" by simp
      then show ?thesis using True Inr l gt by (simp add: code spec_read_class_def)
    next
      case False
      show ?thesis
      proof (cases "spec_default_members vm ?ti1 [N..<M] (snd x1)")
        case (Inl e)
        then show ?thesis using False Inr by (simp add: code loop spec_read_class_def)
      next
        case r: (Inr d2)
        then have l: "ParseElem_class ?rec fuel vm ?ti1 ?elen ?start 0 (data2, d) = Inr (fst x1, d2)"
          using Inr by (simp add: loop)
        from ParseElem_class_exit [OF l] M have "NumElems d2 ?start = int M" by simp
        then show ?thesis using False Inr r l gt
          by (simp add: code spec_read_class_def split: sum.splits)
      qed
    qed
  qed
qed

text \<open>The varint of \<open>2^31\<close> and what the cast makes of it.\<close>

lemma leb128_oversized:
  "leb128 [CHR 0x80, CHR 0x80, CHR 0x80, CHR 0x80, CHR 0x08, CHR 0x00] = Inr (2147483648, [CHR 0x00])"
  by simp

lemma cast_int_oversized: "cast_int 2147483648 = - 2147483648"
  by (simp add: cast_int_def)

text \<open>
  Claim C2, at the input where the code leaves it. The class \<open>Point\<close> has two members,
  \<open>x\<close> of default 0 and \<open>y\<close> of default 7. An encoding that announces three elements
  is refused with ``extra fields presents'', as the comment in the source says of the
  fields of a later version. An encoding that announces \<open>2^31\<close> elements (the varint
  \<open>80 80 80 80 08\<close>) is not: the count is cast to \<^verbatim>\<open>int\<close>, where it is negative, so every
  member gets its default, the test \<^verbatim>\<open>elen > NumElems()\<close> is false, and the parse returns
  the object of the defaults with no error.
\<close>

theorem oversized_count_passes_for_defaults:
  "ParseLobsterBinaryData 5 ex_vm 14
      [CHR 0x80, CHR 0x80, CHR 0x80, CHR 0x80, CHR 0x08, CHR 0x00] =
     Inr \<lparr>ret_value = VObject 14 [VInt 0, VInt 7], ret_error = VNil, released = [], alive = 1\<rparr>
   \<and> ParseLobsterBinaryData 5 ex_vm 14 [CHR 0x03, CHR 0x00, CHR 0x02, CHR 0x03, CHR 0x05] =
     Inr \<lparr>ret_value = VNil,
          ret_error = VString ''lobster_binary_to_value: extra fields presents in Point'',
          released = [], alive = 1\<rparr>
   \<and> ParseLobsterBinaryData 5 ex_vm 14 [CHR 0x01, CHR 0x00, CHR 0x02] =
     Inr \<lparr>ret_value = VObject 14 [VInt 1, VInt 7], ret_error = VNil, released = [], alive = 1\<rparr>"
proof -
  let ?data = "[CHR 0x80, CHR 0x80, CHR 0x80, CHR 0x80, CHR 0x08, CHR 0x00]"
  have cls: "ti_t (type_under_nil ex_vm 14) = V_CLASS"
    by (simp add: type_under_nil_def ex_vm_simps ex_types_simps)
  have typeoff: "(14::int) = (if ti_t (GetTypeInfo ex_vm 14) = V_NIL
                            then subt (GetTypeInfo ex_vm 14) else 14)"
    by (simp add: ex_vm_simps ex_types_simps)
  have dec1: "DecodeVarintU ex_vm ?data = Inr (2147483648, [CHR 0x00])"
    unfolding ex_vm_simps by (rule leb128_oversized)
  have N: "(0::nat) = nat (cast_int 2147483648)" by (simp add: cast_int_oversized)
  have notnil: "cast_int 2147483648 \<noteq> 0 \<or> ti_t (GetTypeInfo ex_vm 14) \<noteq> V_NIL"
    by (simp add: cast_int_oversized)
  have dec2: "DecodeVarintU ex_vm [CHR 0x00] = Inr (0, [])" by (simp add: ex_vm_simps)
  have sub: "GetSubClassFromSerID ex_vm 14 (cast_uint32 0) = 14"
    by (simp add: ex_vm_def cast_uint32_def)
  have M: "ti_len (GetTypeInfo ex_vm 14) = int 2"
    by (simp add: ex_vm_simps ex_types_simps)
  have el: "GetElemOrParent (GetTypeInfo ex_vm 14) 0 = 0"
    "GetElemOrParent (GetTypeInfo ex_vm 14) 1 = 0"
    by (simp_all add: ex_vm_simps ex_types_simps field_at_def)
  have fl0: "ti_t (GetTypeInfo ex_vm 0) \<notin> {V_STRUCT_S, V_STRUCT_R, V_CLASS}"
    by (simp add: ex_vm_simps ex_types_simps)
  have rd: "\<forall>k<min 0 2. \<not> IsStruct (ti_t (type_under_nil ex_vm
                 (GetElemOrParent (GetTypeInfo ex_vm 14) (int k))))"
    by simp
  have flat: "\<forall>k. 0 \<le> k \<and> k < 2 \<longrightarrow>
                 ti_t (GetTypeInfo ex_vm (GetElemOrParent (GetTypeInfo ex_vm 14) (int k)))
                   \<notin> {V_STRUCT_S, V_STRUCT_R, V_CLASS}"
    using fl0 by (auto simp: less_Suc_eq numeral_2_eq_2 el)
  have a: "ParseElem (Suc 4) ex_vm 14 (?data, Deserializer_init) =
           spec_read_class (ParseElem 4 ex_vm) ex_vm 14 0 2 ([], Deserializer_init)"
    by (rule ParseElem_reads_class [where N = 0 and M = 2 and typeoff = 14,
          OF cls typeoff _ dec1 N notnil dec2 sub _ M _ rd flat]) simp_all
  have ra: "spec_read_class (ParseElem 4 ex_vm) ex_vm 14 0 2 ([], Deserializer_init) =
     Inr ([], \<lparr>stack = [VObject 14 [VInt 0, VInt 7]], is_ref = [True], live = 1\<rparr>)"
    by code_simp
  have five: "(5::nat) = Suc 4" by simp
  have pe: "ParseElem 5 ex_vm 14 (?data, Deserializer_init) =
     Inr ([], \<lparr>stack = [VObject 14 [VInt 0, VInt 7]], is_ref = [True], live = 1\<rparr>)"
    unfolding five a ra ..
  have dt: "Deserializer_dtor \<lparr>stack = [], is_ref = [], live = Suc 0\<rparr> = Inr ([], Suc 0)"
    by code_simp
  have 1: "ParseLobsterBinaryData 5 ex_vm 14 ?data =
     Inr \<lparr>ret_value = VObject 14 [VInt 0, VInt 7], ret_error = VNil, released = [], alive = 1\<rparr>"
    by (simp add: ParseLobsterBinaryData_def LobsterBinaryParser_Parse_def pe PopV_def
          try_catch_def dt)
  have 2: "ParseLobsterBinaryData 5 ex_vm 14 [CHR 0x03, CHR 0x00, CHR 0x02, CHR 0x03, CHR 0x05] =
     Inr \<lparr>ret_value = VNil,
          ret_error = VString ''lobster_binary_to_value: extra fields presents in Point'',
          released = [], alive = 1\<rparr>"
    by code_simp
  have 3: "ParseLobsterBinaryData 5 ex_vm 14 [CHR 0x01, CHR 0x00, CHR 0x02] =
     Inr \<lparr>ret_value = VObject 14 [VInt 1, VInt 7], ret_error = VNil, released = [], alive = 1\<rparr>"
    by code_simp
  from 1 2 3 show ?thesis by (intro conjI)
qed

subsection \<open>The textual parser: literals with missing elements\<close>

declare ParseFactor.simps(2) [simp del]

lemma ParseElems_fill_eq:
  assumes flat: "\<And>k. K \<le> k \<Longrightarrow> k < M \<Longrightarrow>
             ti_t (GetTypeInfo vm (fld_type (elemtypes ti (int k)))) \<notin> {V_STRUCT_S, V_STRUCT_R, V_CLASS}"
  shows "K \<le> i \<Longrightarrow> i \<le> M \<Longrightarrow> length (stack p) = start + i \<Longrightarrow> M - i < fuel \<Longrightarrow>
           ParseElems_fill fuel vm ti (int M) start p = spec_fill_members vm ti [i..<M] p"
proof (induction "M - i" arbitrary: i p fuel)
  case 0
  then obtain f where f: "fuel = Suc f" by (cases fuel) auto
  from 0 have "i = M" by simp
  then show ?case using 0 by (simp add: f NumElems_def)
next
  case (Suc n)
  then have iM: "i < M" by simp
  from Suc obtain f where f: "fuel = Suc f" and ff: "M - Suc i < f" by (cases fuel) auto
  obtain f' where f': "f = Suc f'" using ff by (cases f) auto
  have ne: "NumElems p start = int i" using Suc.prems by (simp add: NumElems_def)
  have n': "n = M - Suc i" using Suc.hyps by simp
  have upt: "[i..<M] = i # [Suc i..<M]" using iM by (simp add: upt_conv_Cons)
  note fl = flat [OF Suc.prems(1) iM]
  let ?t = "fld_type (elemtypes ti (int i))" and ?dv = "fld_defval (elemtypes ti (int i))"
  have pd: "PushDefault f vm ?t ?dv p = PushDefault (Suc 0) vm ?t ?dv p"
    unfolding f' by (rule PushDefault_flat(1) [OF fl])
  show ?case
  proof (cases "PushDefault (Suc 0) vm ?t ?dv p")
    case (Inl e)
    then show ?thesis using ne iM pd by (simp add: f upt)
  next
    case (Inr r)
    obtain ok p1 where r: "r = (ok, p1)" by (cases r)
    show ?thesis
    proof (cases ok)
      case False
      then show ?thesis using ne iM pd Inr r by (simp add: f upt lex_Error_def)
    next
      case True
      have l1: "length (stack p1) = start + Suc i"
        using PushDefault_flat(2) [OF fl, of 0 ?dv p ok p1] Inr r True Suc.prems by simp
      have ih: "ParseElems_fill f vm ti (int M) start p1 = spec_fill_members vm ti [Suc i..<M] p1"
        using Suc.hyps(1) [OF n' _ _ l1 ff] iM Suc.prems(1) by simp
      show ?thesis using ne iM pd Inr r True ih by (simp add: f upt)
    qed
  qed
qed

text \<open>
  Claim C4, as the code has it. A literal in braces is parsed with the member count
  of its class or struct: when it supplied \<open>K\<close> of the \<open>M\<close> slots, the slots \<open>K\<close> to
  \<open>M - 1\<close> are filled by the default-value synthesizer, in order, and a member with no
  default fails the parse with ``no default value exists for missing struct
  elements''; then the aggregate is closed. A literal in brackets is parsed with the
  count \<open>-1\<close>, for which nothing is filled: a vector type declares no size.
\<close>

theorem literal_fill:
  "(K \<le> M \<longrightarrow> length (stack p) = stack_start + K \<longrightarrow> M - K < fuel \<longrightarrow>
     (\<forall>k. K \<le> k \<and> k < M \<longrightarrow>
        ti_t (GetTypeInfo vm (fld_type (elemtypes (GetTypeInfo vm typeoff) (int k))))
          \<notin> {V_STRUCT_S, V_STRUCT_R, V_CLASS}) \<longrightarrow>
     ParseElems_finish fuel vm typeoff (int M) stack_start p =
       (case spec_fill_members vm (GetTypeInfo vm typeoff) [K..<M] p of
          Inl e \<Rightarrow> Inl e
        | Inr p1 \<Rightarrow> spec_close_literal vm typeoff stack_start p1))
   \<and> ParseElems_finish fuel vm typeoff (- 1) stack_start p = spec_close_literal vm typeoff stack_start p
   \<and> (lex_token q = T_LEFTBRACKET \<longrightarrow>
        ti_t (GetTypeInfo vm typeoff) = V_VECTOR \<longrightarrow>
        ParseFactor (Suc fuel) vm typeoff push q =
          ParseElems (ParseFactor fuel vm) fuel vm T_RIGHTBRACKET typeoff (- 1) push (lex_Next q))"
proof (intro conjI impI)
  assume K: "K \<le> M" and l: "length (stack p) = stack_start + K" and f: "M - K < fuel"
    and flat: "\<forall>k. K \<le> k \<and> k < M \<longrightarrow>
        ti_t (GetTypeInfo vm (fld_type (elemtypes (GetTypeInfo vm typeoff) (int k))))
          \<notin> {V_STRUCT_S, V_STRUCT_R, V_CLASS}"
  have "ParseElems_fill fuel vm (GetTypeInfo vm typeoff) (int M) stack_start p =
          spec_fill_members vm (GetTypeInfo vm typeoff) [K..<M] p"
    by (rule ParseElems_fill_eq [where K = K, OF _ _ K l f]) (use flat in auto)
  then show "ParseElems_finish fuel vm typeoff (int M) stack_start p =
       (case spec_fill_members vm (GetTypeInfo vm typeoff) [K..<M] p of
          Inl e \<Rightarrow> Inl e
        | Inr p1 \<Rightarrow> spec_close_literal vm typeoff stack_start p1)"
    by (simp add: ParseElems_finish_def spec_close_literal_def Let_def split: sum.splits)
next
  show "ParseElems_finish fuel vm typeoff (- 1) stack_start p = spec_close_literal vm typeoff stack_start p"
    by (simp add: ParseElems_finish_def spec_close_literal_def Let_def)
next
  assume "lex_token q = T_LEFTBRACKET" and "ti_t (GetTypeInfo vm typeoff) = V_VECTOR"
  then show "ParseFactor (Suc fuel) vm typeoff push q =
          ParseElems (ParseFactor fuel vm) fuel vm T_RIGHTBRACKET typeoff (- 1) push (lex_Next q)"
    by (simp add: ParseFactor.simps(2) ParseFactor_body_def Let_def ExpectType_ok_def)
qed

text \<open>
  Claim C4 as stated fails: the text \<^verbatim>\<open>[1, 2]\<close> against the type vector of int gives
  the vector of \<open>1\<close> and \<open>2\<close>, with no third element.
\<close>

theorem vector_literal_is_not_filled:
  "ParseData 10 ex_vm 8 [Tok T_LEFTBRACKET, IntTok 1, Tok T_COMMA, IntTok 2, Tok T_RIGHTBRACKET] =
     Inr \<lparr>ret_value = VVector 8 [VInt 1, VInt 2], ret_error = VNil, released = [], alive = 1\<rparr>
   \<and> VVector 8 [VInt 1, VInt 2] \<noteq> VVector 8 [VInt 1, VInt 2, VInt 0]"
  by code_simp

theorem literal_fill_witness:
  "ParseElems_finish 2 ex_vm 14 (int 2) 0 \<lparr>stack = [VInt 1], is_ref = [False], live = 0, lex = []\<rparr> =
     Inr \<lparr>stack = [VObject 14 [VInt 1, VInt 7]], is_ref = [True], live = 1, lex = []\<rparr>
   \<and> ParseElems_finish 2 ex_vm 42 (int 1) 0 \<lparr>stack = [], is_ref = [], live = 0, lex = []\<rparr> =
     Inl (Fatal ''no default value exists for missing struct elements'',
          \<lparr>stack = [], is_ref = [], live = 0, lex = []\<rparr>)
   \<and> ParseData 10 ex_vm 14 [IdentTok ''Point'', Tok T_LEFTCURLY, IntTok 1, Tok T_RIGHTCURLY] =
     Inr \<lparr>ret_value = VObject 14 [VInt 1, VInt 7], ret_error = VNil, released = [], alive = 1\<rparr>"
proof -
  let ?p = "\<lparr>stack = [VInt 1], is_ref = [False], live = 0, lex = []\<rparr>"
  let ?q = "\<lparr>stack = [], is_ref = [], live = 0, lex = []\<rparr> :: ValueParser"
  have fl: "\<forall>k. 1 \<le> k \<and> k < 2 \<longrightarrow>
        ti_t (GetTypeInfo ex_vm (fld_type (elemtypes (GetTypeInfo ex_vm 14) (int k))))
          \<notin> {V_STRUCT_S, V_STRUCT_R, V_CLASS}"
    by (auto simp: less_Suc_eq numeral_2_eq_2 le_Suc_eq ex_vm_simps ex_types_simps field_at_def)
  have fl2: "\<forall>k. 0 \<le> k \<and> k < 1 \<longrightarrow>
        ti_t (GetTypeInfo ex_vm (fld_type (elemtypes (GetTypeInfo ex_vm 42) (int k))))
          \<notin> {V_STRUCT_S, V_STRUCT_R, V_CLASS}"
    by (auto simp: ex_vm_simps ex_types_simps field_at_def)
  have a: "ParseElems_finish 2 ex_vm 14 (int 2) 0 ?p =
       (case spec_fill_members ex_vm (GetTypeInfo ex_vm 14) [1..<2] ?p of
          Inl e \<Rightarrow> Inl e
        | Inr p1 \<Rightarrow> spec_close_literal ex_vm 14 0 p1)"
    using literal_fill [of 1 2 ?p 0 2 ex_vm 14] fl by simp
  have b: "ParseElems_finish 2 ex_vm 42 (int 1) 0 ?q =
       (case spec_fill_members ex_vm (GetTypeInfo ex_vm 42) [0..<1] ?q of
          Inl e \<Rightarrow> Inl e
        | Inr p1 \<Rightarrow> spec_close_literal ex_vm 42 0 p1)"
    using literal_fill [of 0 1 ?q 0 2 ex_vm 42] fl2 by simp
  have ra: "(case spec_fill_members ex_vm (GetTypeInfo ex_vm 14) [1..<2] ?p of
          Inl e \<Rightarrow> Inl e
        | Inr p1 \<Rightarrow> spec_close_literal ex_vm 14 0 p1) =
       Inr \<lparr>stack = [VObject 14 [VInt 1, VInt 7]], is_ref = [True], live = 1, lex = []\<rparr>"
    by code_simp
  have rb: "(case spec_fill_members ex_vm (GetTypeInfo ex_vm 42) [0..<1] ?q of
          Inl e \<Rightarrow> Inl e
        | Inr p1 \<Rightarrow> spec_close_literal ex_vm 42 0 p1) =
       Inl (Fatal ''no default value exists for missing struct elements'', ?q)"
    by code_simp
  have c: "ParseData 10 ex_vm 14 [IdentTok ''Point'', Tok T_LEFTCURLY, IntTok 1, Tok T_RIGHTCURLY] =
     Inr \<lparr>ret_value = VObject 14 [VInt 1, VInt 7], ret_error = VNil, released = [], alive = 1\<rparr>"
    by code_simp
  show ?thesis unfolding a b ra rb c by simp
qed

subsection \<open>The textual parser: elements in excess\<close>

lemma same_stack_refl [simp]: "same_stack p p"
  by (simp add: same_stack_def)

lemma same_stack_trans: "same_stack p q \<Longrightarrow> same_stack q r \<Longrightarrow> same_stack p r"
  by (simp add: same_stack_def)

lemma same_stack_Next [simp]: "same_stack p (lex_Next p)"
  by (simp add: same_stack_def lex_Next_def)

lemma same_stack_Gobble [simp]: "same_stack p (Gobble tt p)"
  by (simp add: Gobble_def)

lemma same_stack_Expect: "Expect vm tt p = Inr p' \<Longrightarrow> same_stack p p'"
  by (auto simp: Expect_def lex_Error_def split: if_splits)

lemma same_stack_NumElems: "same_stack p p' \<Longrightarrow> NumElems p' start = NumElems p start"
  by (simp add: same_stack_def NumElems_def)

lemma ParseElems_loop_same:
  assumes keeps: "\<forall>t q q'. rec t False q = Inr q' \<longrightarrow> same_stack q q'"
  shows "push = False \<or> NumElems p start = numelems \<Longrightarrow>
         ParseElems_loop rec fuel vm endt ti numelems push start p = Inr p' \<Longrightarrow> same_stack p p'"
proof (induction fuel arbitrary: p)
  case 0
  then show ?case by simp
next
  case (Suc fuel)
  let ?r = "if NumElems p start = numelems then rec (TYPE_ELEM_ANY vm) False p
            else rec (if ti_t ti = V_VECTOR then subt ti
                      else GetElemOrParent ti (NumElems p start)) push p"
  from Suc.prems(2) obtain p1 where r: "?r = Inr p1"
    by (cases ?r) (simp_all del: if_split cong: if_cong)
  have s1: "same_stack p p1"
    using r Suc.prems(1) keeps by (auto split: if_splits)
  have c1: "push = False \<or> NumElems p1 start = numelems"
    using Suc.prems(1) same_stack_NumElems [OF s1] by auto
  have c2: "push = False \<or> NumElems (lex_Next p1) start = numelems"
    using c1 same_stack_NumElems [OF same_stack_Next, of p1 start] by auto
  from Suc.prems(2) r have rest:
    "(if lex_token p1 = T_LINEFEED then
        (if lex_token (lex_Next p1) = endt then Inr (lex_Next p1)
         else ParseElems_loop rec fuel vm endt ti numelems push start (lex_Next p1))
      else
        (if lex_token p1 = endt then Inr p1
         else (case Expect vm T_COMMA p1 of
                 Inl e \<Rightarrow> Inl e
               | Inr p2 \<Rightarrow> ParseElems_loop rec fuel vm endt ti numelems push start p2))) = Inr p'"
    by (simp del: if_split cong: if_cong)
  show ?case
  proof (cases "lex_token p1 = T_LINEFEED")
    case True
    show ?thesis
    proof (cases "lex_token (lex_Next p1) = endt")
      case e: True
      with rest True have "p' = lex_Next p1" by simp
      then show ?thesis using s1 same_stack_trans by fastforce
    next
      case e: False
      with rest True have "ParseElems_loop rec fuel vm endt ti numelems push start (lex_Next p1) = Inr p'"
        by simp
      from Suc.IH [OF c2 this] s1 show ?thesis
        using same_stack_trans same_stack_Next by blast
    qed
  next
    case False
    show ?thesis
    proof (cases "lex_token p1 = endt")
      case e: True
      with rest False have "p' = p1" by simp
      then show ?thesis using s1 by simp
    next
      case e: False
      with rest False obtain p2 where ex: "Expect vm T_COMMA p1 = Inr p2"
        and l: "ParseElems_loop rec fuel vm endt ti numelems push start p2 = Inr p'"
        by (auto split: sum.splits)
      have s2: "same_stack p1 p2" using ex by (rule same_stack_Expect)
      have c3: "push = False \<or> NumElems p2 start = numelems"
        using c1 same_stack_NumElems [OF s2] by auto
      from Suc.IH [OF c3 l] s1 s2 show ?thesis
        using same_stack_trans by blast
    qed
  qed
qed

lemma ParseElems_same:
  assumes keeps: "\<forall>t q q'. rec t False q = Inr q' \<longrightarrow> same_stack q q'"
    and r: "ParseElems rec fuel vm endt typeoff numelems False p = Inr p'"
  shows "same_stack p p'"
proof -
  let ?p = "Gobble T_LINEFEED p"
  show ?thesis
  proof (cases "lex_token ?p = endt")
    case True
    with r have "p' = lex_Next ?p" by (simp add: ParseElems_def Let_def)
    then show ?thesis using same_stack_trans [OF same_stack_Gobble same_stack_Next] by simp
  next
    case False
    with r obtain p1 where
      l: "ParseElems_loop rec fuel vm endt (GetTypeInfo vm typeoff) numelems False (length (stack ?p)) ?p = Inr p1"
      and p': "p' = lex_Next p1"
      by (auto simp: ParseElems_def Let_def split: sum.splits)
    have "same_stack ?p p1" by (rule ParseElems_loop_same [where rec = rec, OF keeps _ l]) auto
    then show ?thesis unfolding p'
      using same_stack_trans same_stack_Gobble same_stack_Next by blast
  qed
qed

lemma ParseFactor_body_same:
  assumes keeps: "\<forall>t q q'. rec t False q = Inr q' \<longrightarrow> same_stack q q'"
    and r: "ParseFactor_body rec fuel vm typeoff False p = Inr p'"
  shows "same_stack p p'"
proof -
  note ps = ParseElems_same [where rec = rec, OF keeps]
  consider (scalar) "lex_token p \<in> {T_INT, T_FLOAT, T_STR, T_NIL}"
    | (minus) "lex_token p = T_MINUS" | (br) "lex_token p = T_LEFTBRACKET"
    | (ident) "lex_token p = T_IDENT"
    | (other) "lex_token p \<notin> {T_INT, T_FLOAT, T_STR, T_NIL, T_MINUS, T_LEFTBRACKET, T_IDENT}"
    by blast
  then show ?thesis
  proof cases
    case scalar
    with r have "p' = lex_Next p"
      by (auto simp: ParseFactor_body_def Let_def lex_Error_def split: if_splits)
    then show ?thesis by simp
  next
    case minus
    with r obtain t where "rec t False (lex_Next p) = Inr p'"
      by (auto simp: ParseFactor_body_def Let_def split: sum.splits)
    with keeps show ?thesis using same_stack_trans same_stack_Next by blast
  next
    case br
    with r obtain t where "ParseElems rec fuel vm T_RIGHTBRACKET t (- 1) False (lex_Next p) = Inr p'"
      by (auto simp: ParseFactor_body_def Let_def lex_Error_def split: if_splits)
    from ps [OF this] show ?thesis using same_stack_trans same_stack_Next by blast
  next
    case ident
    with r have i: "\<exists>ti t. ParseFactor_IDENT rec fuel vm ti t False p = Inr p'"
      by (auto simp: ParseFactor_body_def Let_def)
    then obtain ti t where i: "ParseFactor_IDENT rec fuel vm ti t False p = Inr p'" by blast
    show ?thesis
    proof (cases "ti_t ti = V_INT \<and> enumidx ti \<ge> 0")
      case True
      with i have "p' = lex_Next p"
        by (auto simp: ParseFactor_IDENT_def lex_Error_def split: option.splits)
      then show ?thesis by simp
    next
      case False
      with i obtain p1 t1 n1 where ex: "Expect vm T_LEFTCURLY (lex_Next p) = Inr p1"
        and pe: "ParseElems rec fuel vm T_RIGHTCURLY t1 n1 False p1 = Inr p'"
        by (auto simp: ParseFactor_IDENT_def lex_Error_def
                 split: if_splits sum.splits option.splits prod.splits)
      from same_stack_Expect [OF ex] ps [OF pe] show ?thesis
        using same_stack_trans same_stack_Next by blast
    qed
  next
    case other
    with r show ?thesis
      by (auto simp: ParseFactor_body_def Let_def lex_Error_def)
  qed
qed

lemma ParseFactor_same:
  "ParseFactor fuel vm typeoff False p = Inr p' \<Longrightarrow> same_stack p p'"
proof (induction fuel arbitrary: typeoff p p')
  case 0
  then show ?case by simp
next
  case (Suc fuel)
  show ?case
    by (rule ParseFactor_body_same [of "ParseFactor fuel vm" fuel vm typeoff p p'])
       (use Suc in \<open>auto simp: ParseFactor.simps(2)\<close>)
qed


lemma ParseElems_finish_full:
  assumes cls: "ti_t (GetTypeInfo vm typeoff) = V_CLASS" and n0: "0 \<le> numelems"
    and ne: "NumElems q stack_start = numelems"
    and inv: "length (is_ref q) = length (stack q)"
  shows "ParseElems_finish (Suc f) vm typeoff numelems stack_start q =
          Inr (PushV (VObject typeoff (drop stack_start (stack q))) True
                 ((allocated q)\<lparr>stack := take stack_start (stack q),
                                 is_ref := take stack_start (is_ref q)\<rparr>))"
    and "length (drop stack_start (stack q)) = nat numelems"
proof -
  have l: "length (stack q) = stack_start + nat numelems"
    using ne n0 by (simp add: NumElems_def)
  then show "length (drop stack_start (stack q)) = nat numelems" by simp
  have "ParseElems_finish (Suc f) vm typeoff numelems stack_start q =
          NewObject_of_stack numelems typeoff q"
    using cls n0 ne by (simp add: ParseElems_finish_def Let_def)
  also have "\<dots> = Inr (PushV (VObject typeoff (drop stack_start (stack q))) True
                 ((allocated q)\<lparr>stack := take stack_start (stack q),
                                 is_ref := take stack_start (is_ref q)\<rparr>))"
    using n0 l inv by (simp add: NewObject_of_stack_def PopVN_def Let_def)
  finally show "ParseElems_finish (Suc f) vm typeoff numelems stack_start q =
          Inr (PushV (VObject typeoff (drop stack_start (stack q))) True
                 ((allocated q)\<lparr>stack := take stack_start (stack q),
                                 is_ref := take stack_start (is_ref q)\<rparr>))" .
qed

lemma ParseFactor_any_scalar:
  assumes "ti_t (GetTypeInfo vm (TYPE_ELEM_ANY vm)) = V_ANY"
    and "lex_token r \<in> {T_INT, T_FLOAT, T_STR, T_NIL}"
  shows "ParseFactor (Suc fuel) vm (TYPE_ELEM_ANY vm) False r = Inr (lex_Next r)"
  using assms by (auto simp: ParseFactor.simps(2) ParseFactor_body_def Let_def ExpectType_ok_def)

text \<open>
  Claim C10. In the loop of \<^verbatim>\<open>ParseElems\<close>, once the stack holds as many elements as
  the target type declares, whatever the loop still parses before the closing token
  leaves the stack, the flags and the heap as they were: each further element is
  parsed against \<open>TYPE_ELEM_ANY\<close> with \<open>push\<close> off. The object then built for a class
  holds exactly the declared number of members, the slots that were on the stack.
  An integer, float, string or nil in excess is accepted as it is: too many elements
  are not an error.
\<close>

theorem excess_elements_not_pushed:
  "(NumElems p stack_start = numelems \<longrightarrow>
      ParseElems_loop (ParseFactor fuel vm) n vm endt ti numelems push stack_start p = Inr p' \<longrightarrow>
      same_stack p p')
   \<and> (ti_t (GetTypeInfo vm typeoff) = V_CLASS \<longrightarrow> 0 \<le> numelems \<longrightarrow>
        NumElems q stack_start = numelems \<longrightarrow> length (is_ref q) = length (stack q) \<longrightarrow>
        ParseElems_finish (Suc f) vm typeoff numelems stack_start q =
          Inr (PushV (VObject typeoff (drop stack_start (stack q))) True
                 ((allocated q)\<lparr>stack := take stack_start (stack q),
                                 is_ref := take stack_start (is_ref q)\<rparr>))
        \<and> length (drop stack_start (stack q)) = nat numelems)
   \<and> (ti_t (GetTypeInfo vm (TYPE_ELEM_ANY vm)) = V_ANY \<longrightarrow>
        lex_token r \<in> {T_INT, T_FLOAT, T_STR, T_NIL} \<longrightarrow>
        ParseFactor (Suc fuel) vm (TYPE_ELEM_ANY vm) False r = Inr (lex_Next r))"
proof (intro conjI impI)
  assume ne: "NumElems p stack_start = numelems"
    and l: "ParseElems_loop (ParseFactor fuel vm) n vm endt ti numelems push stack_start p = Inr p'"
  have k: "\<forall>t q q'. ParseFactor fuel vm t False q = Inr q' \<longrightarrow> same_stack q q'"
    using ParseFactor_same by blast
  show "same_stack p p'"
    by (rule ParseElems_loop_same [OF k _ l]) (simp add: ne)
next
  assume a: "ti_t (GetTypeInfo vm typeoff) = V_CLASS" "0 \<le> numelems"
    "NumElems q stack_start = numelems" "length (is_ref q) = length (stack q)"
  show "ParseElems_finish (Suc f) vm typeoff numelems stack_start q =
          Inr (PushV (VObject typeoff (drop stack_start (stack q))) True
                 ((allocated q)\<lparr>stack := take stack_start (stack q),
                                 is_ref := take stack_start (is_ref q)\<rparr>))"
    by (rule ParseElems_finish_full(1) [OF a])
  show "length (drop stack_start (stack q)) = nat numelems"
    by (rule ParseElems_finish_full(2) [OF a])
next
  assume "ti_t (GetTypeInfo vm (TYPE_ELEM_ANY vm)) = V_ANY"
    "lex_token r \<in> {T_INT, T_FLOAT, T_STR, T_NIL}"
  then show "ParseFactor (Suc fuel) vm (TYPE_ELEM_ANY vm) False r = Inr (lex_Next r)"
    by (rule ParseFactor_any_scalar)
qed

theorem excess_elements_not_pushed_witness:
  "same_stack \<lparr>stack = [VInt 1, VInt 2], is_ref = [False, False], live = 0,
                lex = [IntTok 3, Tok T_COMMA, StrTok ''x'', Tok T_RIGHTCURLY]\<rparr>
              \<lparr>stack = [VInt 1, VInt 2], is_ref = [False, False], live = 0,
                lex = [Tok T_RIGHTCURLY]\<rparr>
   \<and> ParseData 10 ex_vm 14
        [IdentTok ''Point'', Tok T_LEFTCURLY, IntTok 1, Tok T_COMMA, IntTok 2, Tok T_COMMA,
         IntTok 3, Tok T_COMMA, StrTok ''x'', Tok T_RIGHTCURLY] =
      Inr \<lparr>ret_value = VObject 14 [VInt 1, VInt 2], ret_error = VNil, released = [],
           alive = 1\<rparr>"
proof -
  let ?p = "\<lparr>stack = [VInt 1, VInt 2], is_ref = [False, False], live = 0,
             lex = [IntTok 3, Tok T_COMMA, StrTok ''x'', Tok T_RIGHTCURLY]\<rparr>"
  let ?p' = "\<lparr>stack = [VInt 1, VInt 2], is_ref = [False, False], live = 0,
              lex = [Tok T_RIGHTCURLY]\<rparr>"
  have n: "NumElems ?p 0 = 2" by (simp add: NumElems_def)
  have l: "ParseElems_loop (ParseFactor 1 ex_vm) 3 ex_vm T_RIGHTCURLY (ex_types 14) 2 True 0 ?p
            = Inr ?p'"
    by code_simp
  have a: "same_stack ?p ?p'"
    by (rule excess_elements_not_pushed [THEN conjunct1, rule_format, OF n l])
  have b: "ParseData 10 ex_vm 14
        [IdentTok ''Point'', Tok T_LEFTCURLY, IntTok 1, Tok T_COMMA, IntTok 2, Tok T_COMMA,
         IntTok 3, Tok T_COMMA, StrTok ''x'', Tok T_RIGHTCURLY] =
      Inr \<lparr>ret_value = VObject 14 [VInt 1, VInt 2], ret_error = VNil, released = [],
           alive = 1\<rparr>"
    by code_simp
  show ?thesis by (rule conjI [OF a b])
qed

subsection \<open>The flags stay accurate\<close>

lemma holds_after_Inl [simp]: "holds_after P (Inl (a, d)) f = P d"
  and holds_after_Inr [simp]: "holds_after P (Inr x) f = P (f x)"
  by (simp_all add: holds_after_def)

lemma holds_after_bind:
  assumes "holds_after P r f"
    and "\<And>x. r = Inr x \<Longrightarrow> holds_after P (g x) h"
  shows "holds_after P (case r of Inl e \<Rightarrow> Inl e | Inr x \<Rightarrow> g x) h"
  using assms by (cases r) (auto simp: holds_after_def)

lemma flags_ok_PushV: "flags_ok d \<Longrightarrow> ir = is_heap v \<Longrightarrow> flags_ok (PushV v ir d)"
  by (simp add: flags_ok_def)

lemma flags_ok_allocated [simp]: "flags_ok (allocated d) = flags_ok d"
  by (simp add: flags_ok_def)

lemma flags_ok_length: "flags_ok d \<Longrightarrow> length (is_ref d) = length (stack d)"
  by (simp add: flags_ok_def)

lemma flags_ok_PopVN: "PopVN n d = Inr d' \<Longrightarrow> flags_ok d \<Longrightarrow> flags_ok d'"
  by (auto simp: flags_ok_def take_map dest!: PopVN_Inr)

lemma flags_ok_NewObject:
  assumes "flags_ok d"
  shows "holds_after flags_ok (NewObject_of_stack len typeoff d) (\<lambda>d. d)"
proof (cases "NewObject_of_stack len typeoff d")
  case (Inl e)
  then have "snd e = d"
    by (auto simp: NewObject_of_stack_def Let_def split: if_splits sum.splits)
  then show ?thesis using Inl assms by (cases e) simp
next
  case (Inr d')
  from NewObject_of_stack_Inr [OF Inr] assms show ?thesis
    by (simp add: Inr flags_ok_def take_map)
qed

lemma flags_ok_NewVec:
  assumes "flags_ok d"
  shows "holds_after flags_ok (NewVec_of_stack vm len elemoff typeoff d) (\<lambda>d. d)"
proof (cases "NewVec_of_stack vm len elemoff typeoff d")
  case (Inl e)
  then have "snd e = d"
    by (auto simp: NewVec_of_stack_def Let_def split: if_splits sum.splits)
  then show ?thesis using Inl assms by (cases e) simp
next
  case (Inr d')
  from NewVec_of_stack_Inr [OF Inr] assms show ?thesis
    by (auto simp: Inr flags_ok_def take_map)
qed

lemma flags_ok_PushDefault_aux:
  "(\<forall>typeoff defval d. flags_ok d \<longrightarrow>
       holds_after flags_ok (PushDefault fuel vm typeoff defval (d :: 'a Deserializer_scheme)) snd)
   \<and> (\<forall>ti i d. flags_ok d \<longrightarrow>
       holds_after flags_ok (PushDefault_members fuel vm ti i (d :: 'a Deserializer_scheme)) (\<lambda>d. d))"
proof (induction fuel)
  case 0
  show ?case by simp
next
  case (Suc fuel)
  then have ih1: "\<And>typeoff defval (d :: 'a Deserializer_scheme). flags_ok d \<Longrightarrow>
       holds_after flags_ok (PushDefault fuel vm typeoff defval d) snd"
    and ih2: "\<And>ti i (d :: 'a Deserializer_scheme). flags_ok d \<Longrightarrow>
       holds_after flags_ok (PushDefault_members fuel vm ti i d) (\<lambda>d. d)"
    by blast+
  have a: "holds_after flags_ok (PushDefault (Suc fuel) vm typeoff defval d) snd"
    if ok: "flags_ok d" for typeoff defval and d :: "'a Deserializer_scheme"
  proof -
    let ?ti = "GetTypeInfo vm typeoff"
    consider (flat) "ti_t ?ti \<notin> {V_STRUCT_S, V_STRUCT_R, V_CLASS}"
      | (st) "ti_t ?ti = V_STRUCT_S \<or> ti_t ?ti = V_STRUCT_R" | (cl) "ti_t ?ti = V_CLASS" by auto
    then show ?thesis
    proof cases
      case flat
      then show ?thesis using ok by (auto simp: Let_def flags_ok_PushV)
    next
      case st
      show ?thesis using st ih2 [OF ok, of ?ti 0]
        by (cases "PushDefault_members fuel vm ?ti 0 d") (auto simp: Let_def)
    next
      case cl
      show ?thesis
      proof (cases "PushDefault_members fuel vm ?ti 0 d")
        case (Inl e)
        then show ?thesis using cl ih2 [OF ok, of ?ti 0] by (cases e) (simp add: Let_def)
      next
        case (Inr d1)
        with ih2 [OF ok, of ?ti 0] have "flags_ok d1" by simp
        from flags_ok_NewObject [OF this, of "ti_len ?ti" typeoff] show ?thesis
          using cl Inr
          by (cases "NewObject_of_stack (ti_len ?ti) typeoff d1") (auto simp: Let_def)
      qed
    qed
  qed
  have b: "holds_after flags_ok (PushDefault_members (Suc fuel) vm ti i d) (\<lambda>d. d)"
    if ok: "flags_ok d" for ti i and d :: "'a Deserializer_scheme"
  proof (cases "i < ti_len ti")
    case False
    then show ?thesis using ok by simp
  next
    case True
    let ?r = "PushDefault fuel vm (fld_type (elemtypes ti i)) (fld_defval (elemtypes ti i)) d"
    have h: "holds_after flags_ok ?r snd" using ih1 [OF ok] .
    show ?thesis
    proof (cases ?r)
      case (Inl e)
      then show ?thesis using True h by (cases e) simp
    next
      case (Inr r)
      obtain ok' d1 where r: "r = (ok', d1)" by (cases r)
      have "flags_ok d1" using h Inr r by simp
      from ih2 [OF this] show ?thesis using True Inr r by simp
    qed
  qed
  from a b show ?case by blast
qed

lemma flags_ok_PushDefault:
  "flags_ok d \<Longrightarrow> holds_after flags_ok (PushDefault fuel vm typeoff defval d) snd"
  using flags_ok_PushDefault_aux by blast

declare ParseElem_vector.simps [simp del]

lemma flags_ParseElem_vector:
  assumes rec: "\<forall>t x. flags_ok (snd x) \<longrightarrow> holds_after flags_ok (rec t x) snd"
  shows "flags_ok (snd x) \<Longrightarrow> holds_after flags_ok (ParseElem_vector rec elemoff i len x) snd"
proof (induction "len - i" arbitrary: i x)
  case 0
  then show ?case by (simp add: ParseElem_vector.simps [of rec elemoff i len x])
next
  case (Suc n)
  then have il: "i < len" by simp
  have h: "holds_after flags_ok (rec elemoff x) snd" using rec Suc.prems by blast
  show ?case
  proof (cases "rec elemoff x")
    case (Inl e)
    then show ?thesis using il h
      by (cases e) (simp add: ParseElem_vector.simps [of rec elemoff i len x])
  next
    case (Inr x1)
    with h have "flags_ok (snd x1)" by simp
    from Suc.hyps(1) [OF _ this, of "Suc i"] Suc.hyps(2) show ?thesis
      using il Inr by (simp add: ParseElem_vector.simps [of rec elemoff i len x])
  qed
qed

lemma flags_ParseElem_class:
  assumes rec: "\<forall>t x. flags_ok (snd x) \<longrightarrow> holds_after flags_ok (rec t x) snd"
  shows "flags_ok (snd x) \<Longrightarrow>
           holds_after flags_ok (ParseElem_class rec fuel vm ti elen start i x) snd"
proof (induction fuel arbitrary: i x)
  case 0
  then show ?case by simp
next
  case (Suc fuel)
  let ?n = "NumElems (snd x) start"
  show ?case
  proof (cases "?n \<noteq> ti_len ti")
    case False
    then show ?thesis using Suc.prems by simp
  next
    case True
    show ?thesis
    proof (cases "?n \<ge> elen")
      case ge: True
      let ?r = "PushDefault fuel vm (GetElemOrParent ti ?n) (fld_defval (elemtypes ti ?n)) (snd x)"
      have h: "holds_after flags_ok ?r snd" using flags_ok_PushDefault [OF Suc.prems] .
      show ?thesis
      proof (cases ?r)
        case (Inl e)
        then show ?thesis using True ge h by (cases e) simp
      next
        case (Inr r)
        obtain ok d1 where r: "r = (ok, d1)" by (cases r)
        have f1: "flags_ok d1" using h Inr r by simp
        show ?thesis
        proof (cases ok)
          case False
          then show ?thesis using True ge Inr r f1 by (simp add: LobsterBinaryParser_Error_def)
        next
          case ok: True
          from Suc.IH [of "(fst x, d1)" "i + 1"] f1 show ?thesis
            using True ge Inr r ok by simp
        qed
      qed
    next
      case lt: False
      let ?r = "rec (GetElemOrParent ti ?n) x"
      have h: "holds_after flags_ok ?r snd" using rec Suc.prems by blast
      show ?thesis
      proof (cases ?r)
        case (Inl e)
        then show ?thesis using True lt h by (cases e) simp
      next
        case (Inr x1)
        with h have "flags_ok (snd x1)" by simp
        from Suc.IH [OF this, of "i + 1"] show ?thesis using True lt Inr by simp
      qed
    qed
  qed
qed

lemma flags_ParseElem_struct:
  assumes rec: "\<forall>t x. flags_ok (snd x) \<longrightarrow> holds_after flags_ok (rec t x) snd"
  shows "flags_ok (snd x) \<Longrightarrow>
           holds_after flags_ok (ParseElem_struct rec fuel ti start x) snd"
proof (induction fuel arbitrary: x)
  case 0
  then show ?case by simp
next
  case (Suc fuel)
  let ?n = "NumElems (snd x) start"
  show ?case
  proof (cases "?n \<noteq> ti_len ti")
    case False
    then show ?thesis using Suc.prems by simp
  next
    case True
    let ?r = "rec (GetElemOrParent ti ?n) x"
    have h: "holds_after flags_ok ?r snd" using rec Suc.prems by blast
    show ?thesis
    proof (cases ?r)
      case (Inl e)
      then show ?thesis using True h by (cases e) simp
    next
      case (Inr x1)
      with h have "flags_ok (snd x1)" by simp
      from Suc.IH [OF this] show ?thesis using True Inr by simp
    qed
  qed
qed

lemma flags_ParseElem_INT:
  "flags_ok (snd x) \<Longrightarrow> holds_after flags_ok (ParseElem_INT vm x) snd"
  by (auto simp: ParseElem_INT_def flags_ok_PushV split: sum.splits)

lemma flags_ParseElem_FLOAT:
  "flags_ok (snd x) \<Longrightarrow> holds_after flags_ok (ParseElem_FLOAT x) snd"
  by (auto simp: ParseElem_FLOAT_def Truncated_def LobsterBinaryParser_Error_def flags_ok_PushV)

lemma flags_ParseElem_STRING:
  "flags_ok (snd x) \<Longrightarrow> holds_after flags_ok (ParseElem_STRING vm base_ti x) snd"
  by (auto simp: ParseElem_STRING_def flags_ok_PushV split: sum.splits)

lemma flags_ParseElem_VECTOR:
  assumes rec: "\<forall>t x. flags_ok (snd x) \<longrightarrow> holds_after flags_ok (rec t x) snd"
    and ok: "flags_ok (snd x)"
  shows "holds_after flags_ok (ParseElem_VECTOR rec vm base_ti ti typeoff x) snd"
proof (cases "DecodeVarintU vm (fst x)")
  case (Inl a)
  then show ?thesis using ok by (simp add: ParseElem_VECTOR_def)
next
  case (Inr r)
  obtain len data1 where r: "r = (len, data1)" by (cases r)
  show ?thesis
  proof (cases "len = 0 \<and> ti_t base_ti = V_NIL")
    case True
    then show ?thesis using ok Inr r by (simp add: ParseElem_VECTOR_def flags_ok_PushV)
  next
    case False
    let ?l = "ParseElem_vector rec (subt ti) 0 len (data1, snd x)"
    have h: "holds_after flags_ok ?l snd"
      using flags_ParseElem_vector [OF rec, of "(data1, snd x)"] ok by simp
    show ?thesis
    proof (cases ?l)
      case (Inl e)
      then show ?thesis using False Inr r h
        by (cases e) (auto simp: ParseElem_VECTOR_def Let_def)
    next
      case l: (Inr x2)
      with h have f2: "flags_ok (snd x2)" by simp
      let ?v = "NewVec_of_stack vm (NumElems (snd x2) (length (stack (snd x)))) (subt ti) typeoff (snd x2)"
      have "holds_after flags_ok ?v (\<lambda>d. d)" using flags_ok_NewVec [OF f2] .
      then show ?thesis using False Inr r l
        by (cases ?v; cases x2) (auto simp: ParseElem_VECTOR_def Let_def)
    qed
  qed
qed

lemma flags_ParseElem_CLASS:
  assumes rec: "\<forall>t x. flags_ok (snd x) \<longrightarrow> holds_after flags_ok (rec t x) snd"
    and ok: "flags_ok (snd x)"
  shows "holds_after flags_ok (ParseElem_CLASS rec fuel vm base_ti ti typeoff x) snd"
proof (cases "DecodeVarintU vm (fst x)")
  case (Inl a)
  then show ?thesis using ok by (simp add: ParseElem_CLASS_def)
next
  case (Inr r)
  obtain n data1 where r: "r = (n, data1)" by (cases r)
  show ?thesis
  proof (cases "cast_int n = 0 \<and> ti_t base_ti = V_NIL")
    case True
    then show ?thesis using ok Inr r by (simp add: ParseElem_CLASS_def flags_ok_PushV)
  next
    case False
    show ?thesis
    proof (cases "DecodeVarintU vm data1")
      case (Inl a)
      then show ?thesis using ok Inr r False by (auto simp: ParseElem_CLASS_def Let_def)
    next
      case d2: (Inr r2)
      obtain ser_id data2 where r2: "r2 = (ser_id, data2)" by (cases r2)
      let ?t1 = "GetSubClassFromSerID vm typeoff (cast_uint32 ser_id)"
      show ?thesis
      proof (cases "?t1 < 0")
        case True
        then show ?thesis using ok Inr r False d2 r2
          by (auto simp: ParseElem_CLASS_def Let_def LobsterBinaryParser_Error_def)
      next
        case pos: False
        let ?l = "ParseElem_class rec fuel vm (GetTypeInfo vm ?t1) (cast_int n)
                    (length (stack (snd x))) 0 (data2, snd x)"
        have h: "holds_after flags_ok ?l snd"
          using flags_ParseElem_class [OF rec, of "(data2, snd x)"] ok by simp
        show ?thesis
        proof (cases ?l)
          case (Inl e)
          then show ?thesis using False Inr r d2 r2 pos h
            by (cases e) (auto simp: ParseElem_CLASS_def Let_def)
        next
          case l: (Inr x3)
          with h have f3: "flags_ok (snd x3)" by simp
          let ?o = "NewObject_of_stack (NumElems (snd x3) (length (stack (snd x)))) ?t1 (snd x3)"
          have "holds_after flags_ok ?o (\<lambda>d. d)" using flags_ok_NewObject [OF f3] .
          then show ?thesis using False Inr r d2 r2 pos l f3
            by (cases ?o; cases x3)
               (auto simp: ParseElem_CLASS_def Let_def LobsterBinaryParser_Error_def)
        qed
      qed
    qed
  qed
qed

lemma flags_ParseElem_body:
  assumes rec: "\<forall>t x. flags_ok (snd x) \<longrightarrow> holds_after flags_ok (rec t x) snd"
    and ok: "flags_ok (snd x)"
  shows "holds_after flags_ok (ParseElem_body rec fuel vm typeoff x) snd"
  unfolding ParseElem_body_def Let_def
  using ok flags_ParseElem_INT [OF ok] flags_ParseElem_FLOAT [OF ok] flags_ParseElem_STRING [OF ok]
    flags_ParseElem_VECTOR [OF rec ok] flags_ParseElem_CLASS [OF rec ok]
    flags_ParseElem_struct [OF rec ok]
  by (simp add: Truncated_def LobsterBinaryParser_Error_def)

lemma flags_ParseElem:
  "flags_ok (snd x) \<Longrightarrow> holds_after flags_ok (ParseElem fuel vm typeoff x) snd"
proof (induction fuel arbitrary: typeoff x)
  case 0
  then show ?case by simp
next
  case (Suc fuel)
  have "\<forall>t x. flags_ok (snd x) \<longrightarrow> holds_after flags_ok (ParseElem fuel vm t x) snd"
    using Suc.IH by blast
  from flags_ParseElem_body [OF this Suc.prems] show ?case
    by (simp add: ParseElem.simps(2))
qed

lemma same_stack_flags: "same_stack p p' \<Longrightarrow> flags_ok p \<Longrightarrow> flags_ok p'"
  by (simp add: same_stack_def flags_ok_def)

lemma flags_lex_Next [simp]: "flags_ok (lex_Next p) = flags_ok p"
  by (simp add: flags_ok_def lex_Next_def)

lemma flags_Gobble [simp]: "flags_ok (Gobble tt p) = flags_ok p"
  by (simp add: Gobble_def)

lemma flags_Expect: "flags_ok p \<Longrightarrow> holds_after flags_ok (Expect vm tt p) (\<lambda>p. p)"
  by (simp add: Expect_def lex_Error_def)

lemma flags_ParseElems_loop:
  assumes rec: "\<forall>t push p. flags_ok p \<longrightarrow> holds_after flags_ok (rec t push p) (\<lambda>p. p)"
  shows "flags_ok p \<Longrightarrow>
           holds_after flags_ok (ParseElems_loop rec fuel vm endt ti numelems push start p) (\<lambda>p. p)"
proof (induction fuel arbitrary: p)
  case 0
  then show ?case by simp
next
  case (Suc fuel)
  let ?r = "if NumElems p start = numelems then rec (TYPE_ELEM_ANY vm) False p
            else rec (if ti_t ti = V_VECTOR then subt ti
                      else GetElemOrParent ti (NumElems p start)) push p"
  have h: "holds_after flags_ok ?r (\<lambda>p. p)" using rec Suc.prems by simp
  show ?case
  proof (cases ?r)
    case (Inl e)
    then show ?thesis using h by (cases e) (simp del: if_split cong: if_cong)
  next
    case (Inr p1)
    with h have f1: "flags_ok p1" by simp
    have f2: "flags_ok (lex_Next p1)" using f1 by simp
    have e: "holds_after flags_ok (Expect vm T_COMMA p1) (\<lambda>p. p)" using flags_Expect [OF f1] .
    have rest: "holds_after flags_ok
      (if lex_token p1 = T_LINEFEED then
        (if lex_token (lex_Next p1) = endt then Inr (lex_Next p1)
         else ParseElems_loop rec fuel vm endt ti numelems push start (lex_Next p1))
      else
        (if lex_token p1 = endt then Inr p1
         else (case Expect vm T_COMMA p1 of
                 Inl e \<Rightarrow> Inl e
               | Inr p2 \<Rightarrow> ParseElems_loop rec fuel vm endt ti numelems push start p2))) (\<lambda>p. p)"
      using f1 f2 Suc.IH [OF f2] e Suc.IH
      by (cases "Expect vm T_COMMA p1") (auto simp: holds_after_def)
    show ?thesis using Inr rest by (simp del: if_split cong: if_cong)
  qed
qed

lemma flags_ParseElems_fill:
  "flags_ok p \<Longrightarrow> holds_after flags_ok (ParseElems_fill fuel vm ti numelems start p) (\<lambda>p. p)"
proof (induction fuel arbitrary: p)
  case 0
  then show ?case by simp
next
  case (Suc fuel)
  let ?n = "NumElems p start"
  show ?case
  proof (cases "?n < numelems")
    case False
    then show ?thesis using Suc.prems by simp
  next
    case True
    let ?r = "PushDefault fuel vm (fld_type (elemtypes ti ?n)) (fld_defval (elemtypes ti ?n)) p"
    have h: "holds_after flags_ok ?r snd" using flags_ok_PushDefault [OF Suc.prems] .
    show ?thesis
    proof (cases ?r)
      case (Inl e)
      then show ?thesis using True h by (cases e) simp
    next
      case (Inr r)
      obtain ok p1 where r: "r = (ok, p1)" by (cases r)
      have f1: "flags_ok p1" using h Inr r by simp
      show ?thesis using True Inr r f1 Suc.IH [OF f1]
        by (cases ok) (simp_all add: lex_Error_def)
    qed
  qed
qed

lemma flags_ParseElems_finish:
  assumes ok: "flags_ok p"
  shows "holds_after flags_ok (ParseElems_finish fuel vm typeoff numelems start p) (\<lambda>p. p)"
proof -
  let ?ti = "GetTypeInfo vm typeoff"
  let ?f = "if numelems \<ge> 0 then ParseElems_fill fuel vm ?ti numelems start p else Inr p"
  have h: "holds_after flags_ok ?f (\<lambda>p. p)" using flags_ParseElems_fill [OF ok] ok by simp
  show ?thesis
  proof (cases ?f)
    case (Inl e)
    then show ?thesis using h
      by (cases e) (simp add: ParseElems_finish_def Let_def del: if_split cong: if_cong)
  next
    case (Inr p1)
    with h have f1: "flags_ok p1" by simp
    show ?thesis
      using Inr f1 flags_ok_NewObject [OF f1, of "NumElems p1 start" typeoff]
        flags_ok_NewVec [OF f1, of vm "NumElems p1 start" "subt ?ti" typeoff]
      by (simp add: ParseElems_finish_def Let_def del: if_split cong: if_cong)
  qed
qed

lemma flags_ParseElems:
  assumes rec: "\<forall>t push p. flags_ok p \<longrightarrow> holds_after flags_ok (rec t push p) (\<lambda>p. p)"
    and ok: "flags_ok p"
  shows "holds_after flags_ok (ParseElems rec fuel vm endt typeoff numelems push p) (\<lambda>p. p)"
proof -
  let ?p = "Gobble T_LINEFEED p"
  let ?s = "length (stack ?p)"
  let ?l = "ParseElems_loop rec fuel vm endt (GetTypeInfo vm typeoff) numelems push ?s ?p"
  let ?a = "if lex_token ?p = endt then Inr (lex_Next ?p)
            else (case ?l of Inl e \<Rightarrow> Inl e | Inr p1 \<Rightarrow> Inr (lex_Next p1))"
  have fp: "flags_ok ?p" using ok by simp
  have hl: "holds_after flags_ok ?l (\<lambda>p. p)" using flags_ParseElems_loop [OF rec fp] .
  have ha: "holds_after flags_ok ?a (\<lambda>p. p)"
    using fp hl by (cases ?l) (auto simp: holds_after_def)
  show ?thesis
  proof (cases ?a)
    case (Inl e)
    then show ?thesis using ha
      by (cases e) (simp add: ParseElems_def Let_def del: if_split cong: if_cong)
  next
    case (Inr p2)
    with ha have f2: "flags_ok p2" by simp
    show ?thesis using Inr f2 flags_ParseElems_finish [OF f2, of fuel vm typeoff numelems ?s]
      by (simp add: ParseElems_def Let_def del: if_split cong: if_cong)
  qed
qed

lemma flags_negate_back:
  "flags_ok p \<Longrightarrow> holds_after flags_ok (negate_back vm typeoff p) (\<lambda>p. p)"
proof -
  assume ok: "flags_ok p"
  have a: "flags_ok (p\<lparr>stack := butlast (stack p) @ [v]\<rparr>)"
    if "stack p \<noteq> []" "is_heap v = is_heap (last (stack p))" for v
  proof -
    have "stack p = butlast (stack p) @ [last (stack p)]" using that by simp
    from arg_cong [OF this, of "map is_heap"]
    have "map is_heap (stack p) = map is_heap (butlast (stack p)) @ [is_heap (last (stack p))]"
      by simp
    then show ?thesis using ok that by (simp add: flags_ok_def)
  qed
  show ?thesis
    using ok a [of "VInt (- (case last (stack p) of VInt i \<Rightarrow> i | _ \<Rightarrow> 0))"]
    by (auto simp: negate_back_def lex_Error_def a split: Value.splits)
qed


lemma flags_ParseFactor_IDENT:
  assumes rec: "\<forall>t push p. flags_ok p \<longrightarrow> holds_after flags_ok (rec t push p) (\<lambda>p. p)"
    and ok: "flags_ok p"
  shows "holds_after flags_ok (ParseFactor_IDENT rec fuel vm ti typeoff push p) (\<lambda>p. p)"
proof (cases "ti_t ti = V_INT \<and> enumidx ti \<ge> 0")
  case True
  then show ?thesis using ok
    by (auto simp: ParseFactor_IDENT_def lex_Error_def flags_ok_PushV split: option.splits)
next
  case False
  show ?thesis
  proof (cases "\<not> IsUDT (ti_t ti) \<and> ti_t ti \<noteq> V_ANY")
    case True
    then show ?thesis using False ok by (auto simp: ParseFactor_IDENT_def lex_Error_def)
  next
    case udt: False
    have e: "holds_after flags_ok (Expect vm T_LEFTCURLY (lex_Next p)) (\<lambda>p. p)"
      using flags_Expect [of "lex_Next p"] ok by simp
    show ?thesis
    proof (cases "Expect vm T_LEFTCURLY (lex_Next p)")
      case (Inl e')
      then show ?thesis using False udt e by (cases e') (auto simp: ParseFactor_IDENT_def)
    next
      case (Inr p1)
      with e have f1: "flags_ok p1" by simp
      note pe = flags_ParseElems [OF rec f1]
      show ?thesis using False udt Inr f1 pe
        by (auto simp: ParseFactor_IDENT_def lex_Error_def split: option.splits)
    qed
  qed
qed

lemma holds_after_if:
  "holds_after P (if c then a else b) f = ((c \<longrightarrow> holds_after P a f) \<and> (\<not> c \<longrightarrow> holds_after P b f))"
  by simp

lemma flags_ParseFactor_body:
  assumes rec: "\<forall>t push p. flags_ok p \<longrightarrow> holds_after flags_ok (rec t push p) (\<lambda>p. p)"
    and ok: "flags_ok p"
  shows "holds_after flags_ok (ParseFactor_body rec fuel vm typeoff push p) (\<lambda>p. p)"
proof -
  have nx: "flags_ok (lex_Next p)" using ok by simp
  have m: "holds_after flags_ok
             (case rec t push (lex_Next p) of
                Inl e \<Rightarrow> Inl e
              | Inr p1 \<Rightarrow> if push then negate_back vm t p1 else Inr p1) (\<lambda>p. p)" for t
  proof -
    have h: "holds_after flags_ok (rec t push (lex_Next p)) (\<lambda>p. p)" using rec nx by blast
    show ?thesis
    proof (cases "rec t push (lex_Next p)")
      case (Inl e)
      then show ?thesis using h by (cases e) simp
    next
      case (Inr p1)
      then have "flags_ok p1" using h by simp
      then show ?thesis using Inr flags_negate_back by simp
    qed
  qed
  have pe: "holds_after flags_ok
              (ParseElems rec fuel vm T_RIGHTBRACKET t (- 1) push (lex_Next p)) (\<lambda>p. p)" for t
    by (rule flags_ParseElems [OF rec nx])
  have id: "holds_after flags_ok (ParseFactor_IDENT rec fuel vm ti t push p) (\<lambda>p. p)" for ti t
    by (rule flags_ParseFactor_IDENT [OF rec ok])
  have sc: "flags_ok (if push then PushV (VInt i) False (lex_Next p) else lex_Next p)"
    "flags_ok (if push then PushV (VFloat fl) False (lex_Next p) else lex_Next p)"
    "flags_ok (if push then PushV (VString str) True (allocated (lex_Next p)) else lex_Next p)"
    "flags_ok (if push then PushV VNil False (lex_Next p) else lex_Next p)" for i fl str
    using nx by (simp_all add: flags_ok_PushV)
  consider (i) "lex_token p = T_INT" | (f) "lex_token p = T_FLOAT" | (s) "lex_token p = T_STR"
    | (n) "lex_token p = T_NIL"
    | (minus) "lex_token p = T_MINUS" | (br) "lex_token p = T_LEFTBRACKET"
    | (ident) "lex_token p = T_IDENT"
    | (other) "lex_token p \<noteq> T_INT" "lex_token p \<noteq> T_FLOAT" "lex_token p \<noteq> T_STR"
        "lex_token p \<noteq> T_NIL" "lex_token p \<noteq> T_MINUS" "lex_token p \<noteq> T_LEFTBRACKET"
        "lex_token p \<noteq> T_IDENT"
    by blast
  then show ?thesis
  proof cases
    case i
    then show ?thesis using ok sc
      by (simp add: ParseFactor_body_def Let_def lex_Error_def holds_after_if del: if_split)
  next
    case f
    then show ?thesis using ok sc
      by (simp add: ParseFactor_body_def Let_def lex_Error_def holds_after_if del: if_split)
  next
    case s
    then show ?thesis using ok sc
      by (simp add: ParseFactor_body_def Let_def lex_Error_def holds_after_if del: if_split)
  next
    case n
    then show ?thesis using ok sc
      by (simp add: ParseFactor_body_def Let_def lex_Error_def holds_after_if del: if_split)
  next
    case minus
    then show ?thesis using m
      by (simp add: ParseFactor_body_def Let_def del: if_split)
  next
    case br
    then show ?thesis using pe ok
      by (simp add: ParseFactor_body_def Let_def lex_Error_def holds_after_if del: if_split)
  next
    case ident
    then show ?thesis using id
      by (simp add: ParseFactor_body_def Let_def del: if_split)
  next
    case other
    then show ?thesis using ok
      by (simp add: ParseFactor_body_def Let_def lex_Error_def del: if_split)
  qed
qed

lemma flags_ParseFactor:
  "flags_ok p \<Longrightarrow> holds_after flags_ok (ParseFactor fuel vm typeoff push p) (\<lambda>p. p)"
proof (induction fuel arbitrary: typeoff push p)
  case 0
  then show ?case by simp
next
  case (Suc fuel)
  have "\<forall>t push p. flags_ok p \<longrightarrow> holds_after flags_ok (ParseFactor fuel vm t push p) (\<lambda>p. p)"
    using Suc.IH by blast
  from flags_ParseFactor_body [OF this Suc.prems] show ?case
    by (simp add: ParseFactor.simps(2))
qed

declare FlexParseFactor.simps(2) [simp del]

lemma flags_FlexParseFactor_vector:
  assumes rec: "\<forall>r t d. flags_ok d \<longrightarrow> holds_after flags_ok (rec r t d) (\<lambda>d. d)"
  shows "flags_ok d \<Longrightarrow> holds_after flags_ok (FlexParseFactor_vector rec elemoff rs d) (\<lambda>d. d)"
proof (induction rs arbitrary: d)
  case Nil
  then show ?case by simp
next
  case (Cons r rs)
  have h: "holds_after flags_ok (rec r elemoff d) (\<lambda>d. d)" using rec Cons.prems by blast
  show ?case
  proof (cases "rec r elemoff d")
    case (Inl e)
    then show ?thesis using h by (cases e) simp
  next
    case (Inr d1)
    with h have "flags_ok d1" by simp
    from Cons.IH [OF this] show ?thesis using Inr by simp
  qed
qed

lemma flags_FlexParseFactor_map:
  assumes rec: "\<forall>r t d. flags_ok d \<longrightarrow> holds_after flags_ok (rec r t d) (\<lambda>d. d)"
  shows "flags_ok d \<Longrightarrow>
           holds_after flags_ok (FlexParseFactor_map rec fuel vm ti m start i d) (\<lambda>d. d)"
proof (induction fuel arbitrary: i d)
  case 0
  then show ?case by simp
next
  case (Suc fuel)
  let ?n = "NumElems d start"
  let ?e = "flex_lookup m (LookupField vm (structidx ti) i)"
  show ?case
  proof (cases "?n \<noteq> ti_len ti")
    case False
    then show ?thesis using Suc.prems by simp
  next
    case True
    show ?thesis
    proof (cases "?e = FBT_NULL")
      case null: True
      let ?r = "PushDefault fuel vm (GetElemOrParent ti ?n) (fld_defval (elemtypes ti ?n)) d"
      have h: "holds_after flags_ok ?r snd" using flags_ok_PushDefault [OF Suc.prems] .
      show ?thesis
      proof (cases ?r)
        case (Inl e)
        then show ?thesis using True null h by (cases e) simp
      next
        case (Inr r)
        obtain ok d1 where r: "r = (ok, d1)" by (cases r)
        have f1: "flags_ok d1" using h Inr r by simp
        show ?thesis using True null Inr r f1 Suc.IH [OF f1]
          by (cases ok) (simp_all add: FlexBufferParser_Error_def)
      qed
    next
      case nn: False
      let ?r = "rec ?e (GetElemOrParent ti ?n) d"
      have h: "holds_after flags_ok ?r (\<lambda>d. d)" using rec Suc.prems by blast
      show ?thesis
      proof (cases ?r)
        case (Inl e)
        then show ?thesis using True nn h by (cases e) simp
      next
        case (Inr d1)
        with h have "flags_ok d1" by simp
        from Suc.IH [OF this] show ?thesis using True nn Inr by simp
      qed
    qed
  qed
qed

lemma flags_FlexParseFactor_MAP:
  assumes rec: "\<forall>r t d. flags_ok d \<longrightarrow> holds_after flags_ok (rec r t d) (\<lambda>d. d)"
    and ok: "flags_ok d"
  shows "holds_after flags_ok (FlexParseFactor_MAP rec fuel vm ti typeoff m d) (\<lambda>d. d)"
proof (cases "\<not> IsUDT (ti_t ti) \<and> ti_t ti \<noteq> V_ANY")
  case True
  then show ?thesis using ok by (simp add: FlexParseFactor_MAP_def FlexBufferParser_Error_def)
next
  case False
  let ?sel = "case flex_lookup m ''_type'' of
                 FBT_STRING sname \<Rightarrow>
                   if sname \<noteq> StructName vm ti then
                     (case LookupSubClass vm sname ti typeoff of
                        None \<Rightarrow>
                          FlexBufferParser_Error
                            (''class/struct type '' @ StructName vm ti @ '' required, '' @
                             sname @ '' given'') d
                      | Some p \<Rightarrow> Inr p)
                   else Inr (ti, typeoff)
               | _ \<Rightarrow> Inr (ti, typeoff)"
  have sel: "(\<exists>a. ?sel = Inl (a, d)) \<or> (\<exists>p. ?sel = Inr p)"
    by (auto simp: FlexBufferParser_Error_def split: FlexRef.splits option.splits)
  have body: "FlexParseFactor_MAP rec fuel vm ti typeoff m d =
     (case ?sel of
        Inl e \<Rightarrow> Inl e
      | Inr (ti1, typeoff1) \<Rightarrow>
          (case FlexParseFactor_map rec fuel vm ti1 m (length (stack d)) 0 d of
             Inl e \<Rightarrow> Inl e
           | Inr d1 \<Rightarrow>
               if ti_t ti = V_CLASS then
                 NewObject_of_stack (NumElems d1 (length (stack d))) typeoff1 d1
               else Inr d1))"
  proof -
    from False have c: "(\<not> IsUDT (ti_t ti) \<and> ti_t ti \<noteq> V_ANY) = False" by simp
    show ?thesis by (simp only: FlexParseFactor_MAP_def c if_False)
  qed
  from sel show ?thesis
  proof
    assume "\<exists>a. ?sel = Inl (a, d)"
    then obtain a where "?sel = Inl (a, d)" by blast
    then show ?thesis unfolding body using ok by simp
  next
    assume "\<exists>p. ?sel = Inr p"
    then obtain ti1 typeoff1 where s: "?sel = Inr (ti1, typeoff1)" by (metis surj_pair)
    let ?l = "FlexParseFactor_map rec fuel vm ti1 m (length (stack d)) 0 d"
    have h: "holds_after flags_ok ?l (\<lambda>d. d)" using flags_FlexParseFactor_map [OF rec ok] .
    show ?thesis
    proof (cases ?l)
      case (Inl e)
      then show ?thesis unfolding body s using h by (cases e) simp
    next
      case (Inr d1)
      with h have f1: "flags_ok d1" by simp
      show ?thesis unfolding body s
        using Inr f1 flags_ok_NewObject [OF f1, of "NumElems d1 (length (stack d))" typeoff1]
        by (simp add: holds_after_if del: if_split)
    qed
  qed
qed

lemma flags_FlexParseFactor_body:
  assumes rec: "\<forall>r t d. flags_ok d \<longrightarrow> holds_after flags_ok (rec r t d) (\<lambda>d. d)"
    and ok: "flags_ok d"
  shows "holds_after flags_ok (FlexParseFactor_body rec fuel vm r typeoff d) (\<lambda>d. d)"
proof -
  have v: "holds_after flags_ok
             (case FlexParseFactor_vector rec e v d of
                Inl e \<Rightarrow> Inl e
              | Inr d1 \<Rightarrow> NewVec_of_stack vm (NumElems d1 (length (stack d))) e t d1) (\<lambda>d. d)"
    for e v t
  proof -
    have h: "holds_after flags_ok (FlexParseFactor_vector rec e v d) (\<lambda>d. d)"
      using flags_FlexParseFactor_vector [OF rec ok] .
    show ?thesis
    proof (cases "FlexParseFactor_vector rec e v d")
      case (Inl e')
      then show ?thesis using h by (cases e') simp
    next
      case (Inr d1)
      with h have "flags_ok d1" by simp
      from flags_ok_NewVec [OF this] show ?thesis using Inr by simp
    qed
  qed
  have mp: "holds_after flags_ok (FlexParseFactor_MAP rec fuel vm ti t m d) (\<lambda>d. d)" for ti t m
    by (rule flags_FlexParseFactor_MAP [OF rec ok])
  show ?thesis
  proof (cases r)
    case FBT_NULL
    then show ?thesis using ok
      by (simp add: FlexParseFactor_body_def Let_def FlexBufferParser_Error_def holds_after_if
            flags_ok_PushV del: if_split)
  next
    case (FBT_INT i)
    then show ?thesis using ok
      by (simp add: FlexParseFactor_body_def Let_def FlexBufferParser_Error_def holds_after_if
            flags_ok_PushV del: if_split)
  next
    case (FBT_BOOL i)
    then show ?thesis using ok
      by (simp add: FlexParseFactor_body_def Let_def FlexBufferParser_Error_def holds_after_if
            flags_ok_PushV del: if_split)
  next
    case (FBT_FLOAT f)
    then show ?thesis using ok
      by (simp add: FlexParseFactor_body_def Let_def FlexBufferParser_Error_def holds_after_if
            flags_ok_PushV del: if_split)
  next
    case (FBT_STRING s)
    then show ?thesis using ok
      by (simp add: FlexParseFactor_body_def Let_def FlexBufferParser_Error_def holds_after_if
            flags_ok_PushV del: if_split)
  next
    case (FBT_VECTOR vs)
    then show ?thesis using ok v
      by (simp add: FlexParseFactor_body_def Let_def FlexBufferParser_Error_def holds_after_if
            del: if_split)
  next
    case (FBT_MAP m)
    then show ?thesis using mp
      by (simp add: FlexParseFactor_body_def Let_def del: if_split)
  next
    case FBT_OTHER
    then show ?thesis using ok
      by (simp add: FlexParseFactor_body_def Let_def FlexBufferParser_Error_def del: if_split)
  qed
qed

lemma flags_FlexParseFactor:
  "flags_ok d \<Longrightarrow> holds_after flags_ok (FlexParseFactor fuel vm r typeoff d) (\<lambda>d. d)"
proof (induction fuel arbitrary: r typeoff d)
  case 0
  then show ?case by simp
next
  case (Suc fuel)
  have "\<forall>r t d. flags_ok d \<longrightarrow> holds_after flags_ok (FlexParseFactor fuel vm r t d) (\<lambda>d. d)"
    using Suc.IH by blast
  from flags_FlexParseFactor_body [OF this Suc.prems] show ?case
    by (simp add: FlexParseFactor.simps(2))
qed

subsection \<open>The destructor and the entry points\<close>

declare dtor_loop.simps [simp del]

lemma dtor_loop_eq:
  assumes len: "length ir = length st"
    and heap: "\<forall>k<length st. ir ! k \<longrightarrow> is_heap (st ! k)"
  shows "dtor_loop st ir i rel = Inr (rel @ map fst (filter snd (drop i (zip st ir))))"
proof (induction "length st - i" arbitrary: i rel)
  case 0
  then show ?case using len by (simp add: dtor_loop.simps [of st ir i rel])
next
  case (Suc n)
  then have i: "i < length st" by simp
  have d: "drop i (zip st ir) = (st ! i, ir ! i) # drop (Suc i) (zip st ir)"
    using i len by (simp add: Cons_nth_drop_Suc [symmetric])
  have ih: "dtor_loop st ir (Suc i) rel' =
              Inr (rel' @ map fst (filter snd (drop (Suc i) (zip st ir))))" for rel'
    using Suc.hyps(1) [of "Suc i" rel'] Suc.hyps(2) by simp
  show ?case using i heap ih
    by (simp add: dtor_loop.simps [of st ir i rel] d)
qed

lemma heap_nodes_filter:
  "sum_list (map heap_nodes (filter is_heap vs)) = sum_list (map heap_nodes vs)"
proof (induction vs)
  case Nil
  then show ?case by simp
next
  case (Cons v vs)
  then show ?case by (cases v) simp_all
qed

lemma released_flags:
  "map fst (filter snd (zip st (map is_heap st))) = filter is_heap st"
  by (induction st) simp_all

lemma Deserializer_dtor_flagged:
  assumes "length (is_ref d) = length (stack d)"
    and "\<forall>k<length (stack d). is_ref d ! k \<longrightarrow> is_heap (stack d ! k)"
  shows "Deserializer_dtor d =
           Inr (map fst (filter snd (zip (stack d) (is_ref d))),
                live d - sum_list (map heap_nodes (map fst (filter snd (zip (stack d) (is_ref d))))))"
  using assms dtor_loop_eq [of "is_ref d" "stack d" 0 "[]"]
  by (simp add: Deserializer_dtor_def)

lemma Deserializer_dtor_flags_ok:
  assumes "flags_ok d"
  shows "Deserializer_dtor d =
           Inr (filter is_heap (stack d), live d - sum_list (map heap_nodes (stack d)))"
proof -
  have 1: "length (is_ref d) = length (stack d)" using assms by (simp add: flags_ok_def)
  have 2: "\<forall>k<length (stack d). is_ref d ! k \<longrightarrow> is_heap (stack d ! k)"
    using assms by (simp add: flags_ok_def)
  have 3: "map fst (filter snd (zip (stack d) (is_ref d))) = filter is_heap (stack d)"
    using assms by (simp add: flags_ok_def released_flags)
  show ?thesis
    unfolding Deserializer_dtor_flagged [OF 1 2] 3 by (simp add: heap_nodes_filter)
qed

lemma flags_ok_init [simp]: "flags_ok Deserializer_init" "flags_ok (ValueParser_init toks)"
  by (simp_all add: flags_ok_def Deserializer_init_def ValueParser_init_def)

lemma PopV_one:
  assumes "flags_ok d" and "length (stack d) = 1"
  shows "\<exists>d'. PopV d = Inr (last (stack d), d') \<and> stack d' = [] \<and> is_ref d' = []
               \<and> live d' = live d \<and> stack d = [last (stack d)]"
proof -
  from assms obtain v where v: "stack d = [v]" by (cases "stack d") auto
  with assms have "is_ref d = [is_heap v]" by (simp add: flags_ok_def)
  with v show ?thesis by (simp add: PopV_def)
qed

lemma LobsterBinaryParser_Parse_cases:
  "(\<exists>a d. LobsterBinaryParser_Parse fuel vm typeoff data Deserializer_init = Inl (a, d) \<and> flags_ok d)
   \<or> (\<exists>v d data1 d1. LobsterBinaryParser_Parse fuel vm typeoff data Deserializer_init = Inr (v, d)
         \<and> ParseElem fuel vm typeoff (data, Deserializer_init) = Inr (data1, d1)
         \<and> stack d1 = [v] \<and> stack d = [] \<and> is_ref d = [] \<and> live d = live d1 \<and> flags_ok d1)"
proof -
  let ?r = "ParseElem fuel vm typeoff (data, Deserializer_init)"
  have h: "holds_after flags_ok ?r snd" using flags_ParseElem [of "(data, Deserializer_init)"] by simp
  show ?thesis
  proof (cases ?r)
    case (Inl e)
    then show ?thesis using h by (cases e) (simp add: LobsterBinaryParser_Parse_def)
  next
    case (Inr x1)
    obtain data1 d1 where x1: "x1 = (data1, d1)" by (cases x1)
    have f1: "flags_ok d1" using h Inr x1 by simp
    show ?thesis
    proof (cases "length (stack d1) = 1")
      case False
      then show ?thesis using Inr x1 f1 by (simp add: LobsterBinaryParser_Parse_def)
    next
      case True
      from PopV_one [OF f1 True] obtain d' where "PopV d1 = Inr (last (stack d1), d')"
        "stack d' = []" "is_ref d' = []" "live d' = live d1" "stack d1 = [last (stack d1)]" by blast
      then show ?thesis using Inr x1 f1 True
        by (auto simp: LobsterBinaryParser_Parse_def)
    qed
  qed
qed

lemma FlexBufferParser_Parse_cases:
  "(\<exists>a d. FlexBufferParser_Parse fuel vm typeoff r Deserializer_init = Inl (a, d) \<and> flags_ok d)
   \<or> (\<exists>v d d1. FlexBufferParser_Parse fuel vm typeoff r Deserializer_init = Inr (v, d)
         \<and> FlexParseFactor fuel vm r typeoff Deserializer_init = Inr d1
         \<and> stack d1 = [v] \<and> stack d = [] \<and> is_ref d = [] \<and> live d = live d1 \<and> flags_ok d1)"
proof -
  let ?r = "FlexParseFactor fuel vm r typeoff Deserializer_init"
  have h: "holds_after flags_ok ?r (\<lambda>d. d)" using flags_FlexParseFactor [of Deserializer_init] by simp
  show ?thesis
  proof (cases ?r)
    case (Inl e)
    then show ?thesis using h by (cases e) (simp add: FlexBufferParser_Parse_def)
  next
    case (Inr d1)
    have f1: "flags_ok d1" using h Inr by simp
    show ?thesis
    proof (cases "length (stack d1) = 1")
      case False
      then show ?thesis using Inr f1 by (simp add: FlexBufferParser_Parse_def)
    next
      case True
      from PopV_one [OF f1 True] obtain d' where "PopV d1 = Inr (last (stack d1), d')"
        "stack d' = []" "is_ref d' = []" "live d' = live d1" "stack d1 = [last (stack d1)]" by blast
      then show ?thesis using Inr f1 True
        by (auto simp: FlexBufferParser_Parse_def)
    qed
  qed
qed

lemma ValueParser_Parse_cases:
  "(\<exists>a d. ValueParser_Parse fuel vm typeoff (ValueParser_init toks) = Inl (a, d) \<and> flags_ok d)
   \<or> (\<exists>v d d1 d2. ValueParser_Parse fuel vm typeoff (ValueParser_init toks) = Inr (v, d)
         \<and> ParseFactor fuel vm typeoff True (ValueParser_init toks) = Inr d1
         \<and> Expect vm T_ENDOFFILE (Gobble T_LINEFEED d1) = Inr d2
         \<and> stack d2 = [v] \<and> stack d = [] \<and> is_ref d = [] \<and> live d = live d2 \<and> flags_ok d2)"
proof -
  let ?r = "ParseFactor fuel vm typeoff True (ValueParser_init toks)"
  have h: "holds_after flags_ok ?r (\<lambda>d. d)" using flags_ParseFactor [of "ValueParser_init toks"] by simp
  show ?thesis
  proof (cases ?r)
    case (Inl e)
    then show ?thesis using h by (cases e) (simp add: ValueParser_Parse_def)
  next
    case (Inr d1)
    have f1: "flags_ok d1" using h Inr by simp
    have e: "holds_after flags_ok (Expect vm T_ENDOFFILE (Gobble T_LINEFEED d1)) (\<lambda>p. p)"
      using flags_Expect [of "Gobble T_LINEFEED d1"] f1 by simp
    show ?thesis
    proof (cases "Expect vm T_ENDOFFILE (Gobble T_LINEFEED d1)")
      case el: (Inl e')
      then show ?thesis using Inr e by (cases e') (simp add: ValueParser_Parse_def)
    next
      case er: (Inr d2)
      have f2: "flags_ok d2" using e er by simp
      show ?thesis
      proof (cases "length (stack d2) = 1")
        case False
        then show ?thesis using Inr er f2 by (simp add: ValueParser_Parse_def)
      next
        case True
        from PopV_one [OF f2 True] obtain d' where "PopV d2 = Inr (last (stack d2), d')"
          "stack d' = []" "is_ref d' = []" "live d' = live d2" "stack d2 = [last (stack d2)]" by blast
        then show ?thesis using Inr er f2 True
          by (auto simp: ValueParser_Parse_def)
      qed
    qed
  qed
qed

subsection \<open>A value or an error, never both\<close>

lemma try_catch_value_or_error:
  assumes "(\<exists>a d. body = Inl (a, d) \<and> flags_ok d)
         \<or> (\<exists>v d. body = Inr (v, d) \<and> stack d = [] \<and> is_ref d = [])"
  shows "value_or_error body (try_catch body)"
  using assms
proof
  assume "\<exists>a d. body = Inl (a, d) \<and> flags_ok d"
  then obtain a d where b: "body = Inl (a, d)" and f: "flags_ok d" by blast
  have "flags_ok (allocated d)" using f by simp
  from Deserializer_dtor_flags_ok [OF this] show ?thesis
    using b by (cases a) (simp_all add: value_or_error_def try_catch_def)
next
  assume "\<exists>v d. body = Inr (v, d) \<and> stack d = [] \<and> is_ref d = []"
  then obtain v d where b: "body = Inr (v, d)" and s: "stack d = []" "is_ref d = []" by blast
  have "flags_ok d" using s by (simp add: flags_ok_def)
  from Deserializer_dtor_flags_ok [OF this] show ?thesis
    using b by (simp add: value_or_error_def try_catch_def)
qed

text \<open>
  Claim C5. For every input (and every type, runtime and amount of fuel) of the three entry
  points \<^verbatim>\<open>ParseData\<close>, \<^verbatim>\<open>ParseFlexData\<close> and \<^verbatim>\<open>ParseLobsterBinaryData\<close>: when the
  parse returns a value, the entry point returns that value with the error nil; when the parse
  throws its first error string, nothing of the parse is returned and the entry point returns
  the nil value with that string as the error. No other outcome exists for a parse that comes
  back (an assertion failure or undefined behaviour of the source is not a return).
\<close>

theorem entry_points_value_or_error:
  "value_or_error (ValueParser_Parse fuel vm typeoff (ValueParser_init inp))
                  (ParseData fuel vm typeoff inp)
   \<and> value_or_error (FlexBufferParser_Parse fuel vm typeoff r Deserializer_init)
                    (ParseFlexData fuel vm typeoff r)
   \<and> value_or_error (LobsterBinaryParser_Parse fuel vm typeoff data Deserializer_init)
                    (ParseLobsterBinaryData fuel vm typeoff data)"
proof (intro conjI)
  show "value_or_error (ValueParser_Parse fuel vm typeoff (ValueParser_init inp))
                  (ParseData fuel vm typeoff inp)"
    unfolding ParseData_def
    by (rule try_catch_value_or_error) (use ValueParser_Parse_cases [of fuel vm typeoff inp] in blast)
  show "value_or_error (FlexBufferParser_Parse fuel vm typeoff r Deserializer_init)
                    (ParseFlexData fuel vm typeoff r)"
    unfolding ParseFlexData_def
    by (rule try_catch_value_or_error) (use FlexBufferParser_Parse_cases [of fuel vm typeoff r] in blast)
  show "value_or_error (LobsterBinaryParser_Parse fuel vm typeoff data Deserializer_init)
                    (ParseLobsterBinaryData fuel vm typeoff data)"
    unfolding ParseLobsterBinaryData_def
    by (rule try_catch_value_or_error)
       (use LobsterBinaryParser_Parse_cases [of fuel vm typeoff data] in blast)
qed

theorem entry_points_value_or_error_witness:
  "(case ParseData 10 ex_vm 14
           [IdentTok ''Point'', Tok T_LEFTCURLY, IntTok 1, Tok T_COMMA, Tok T_RIGHTBRACKET] of
      Inr r \<Rightarrow> ret_value r = VNil \<and> ret_error r = VString ''illegal start of expression: token''
    | Inl a \<Rightarrow> False)
   \<and> (case ParseLobsterBinaryData 10 ex_vm 8 [CHR 0x02, CHR 0x01, CHR 0x02] of
      Inr r \<Rightarrow> ret_value r = VVector 8 [VInt (- 1), VInt 1] \<and> ret_error r = VNil
    | Inl a \<Rightarrow> False)"
proof -
  have a: "ValueParser_Parse 10 ex_vm 14 (ValueParser_init
             [IdentTok ''Point'', Tok T_LEFTCURLY, IntTok 1, Tok T_COMMA, Tok T_RIGHTBRACKET]) =
           Inl (Fatal ''illegal start of expression: token'',
                \<lparr>stack = [VInt 1], is_ref = [False], live = 0, lex = [Tok T_RIGHTBRACKET]\<rparr>)"
    by code_simp
  have b: "LobsterBinaryParser_Parse 10 ex_vm 8 [CHR 0x02, CHR 0x01, CHR 0x02] Deserializer_init =
           Inr (VVector 8 [VInt (- 1), VInt 1], \<lparr>stack = [], is_ref = [], live = 1\<rparr>)"
    by code_simp
  have 1: "value_or_error (ValueParser_Parse 10 ex_vm 14 (ValueParser_init
             [IdentTok ''Point'', Tok T_LEFTCURLY, IntTok 1, Tok T_COMMA, Tok T_RIGHTBRACKET]))
           (ParseData 10 ex_vm 14
             [IdentTok ''Point'', Tok T_LEFTCURLY, IntTok 1, Tok T_COMMA, Tok T_RIGHTBRACKET])"
    by (rule entry_points_value_or_error [THEN conjunct1])
  have 2: "value_or_error (LobsterBinaryParser_Parse 10 ex_vm 8 [CHR 0x02, CHR 0x01, CHR 0x02]
             Deserializer_init)
           (ParseLobsterBinaryData 10 ex_vm 8 [CHR 0x02, CHR 0x01, CHR 0x02])"
    by (rule entry_points_value_or_error [THEN conjunct2, THEN conjunct2])
  from 1 2 show ?thesis unfolding a b by (simp add: value_or_error_def)
qed

subsection \<open>The scratch value stack\<close>

lemma stack_ops_keep_length:
  assumes "length (is_ref d) = length (stack d)"
  shows "length (is_ref (PushV v ir d)) = length (stack (PushV v ir d))"
    and "PopV d = Inr (w, d') \<Longrightarrow> length (is_ref d') = length (stack d')"
    and "PopVN n d = Inr d'' \<Longrightarrow> length (is_ref d'') = length (stack d'')"
  using assms by (auto simp: PushV_def PopV_def PopVN_def split: if_splits)

lemma dtor_after_abort:
  assumes "flags_ok e"
  shows "is_ref e = map is_heap (stack e)
         \<and> Deserializer_dtor (allocated e) =
             Inr (filter is_heap (stack e), Suc (live e) - sum_list (map heap_nodes (stack e)))"
proof -
  have "flags_ok (allocated e)" using assms by simp
  from Deserializer_dtor_flags_ok [OF this] show ?thesis
    using assms by (simp add: flags_ok_def allocated_def)
qed

text \<open>
  Claim C6. The value sequence and the flag sequence stay equal in length over
  \<^verbatim>\<open>PushV\<close>, \<^verbatim>\<open>PopV\<close> and \<^verbatim>\<open>PopVN\<close>. The destructor, run on a stack of equal lengths
  whose flagged slots hold heap values, releases exactly the flagged slots, each once and in
  order. When one of the three parsers returns a value, the parse had left exactly that one
  value on the stack and the stack is empty afterwards. When one of them aborts, in whatever
  state, a slot of the stack is flagged exactly when it holds a heap value, so the destructor
  that runs after the error string is allocated releases every heap value still on the stack
  once and nothing else.
\<close>

theorem scratch_stack_balanced:
  "(length (is_ref d) = length (stack d) \<longrightarrow>
       length (is_ref (PushV v ir d)) = length (stack (PushV v ir d))
     \<and> (\<forall>w d'. PopV d = Inr (w, d') \<longrightarrow> length (is_ref d') = length (stack d'))
     \<and> (\<forall>d'. PopVN n d = Inr d' \<longrightarrow> length (is_ref d') = length (stack d')))
   \<and> (length (is_ref d) = length (stack d)
        \<and> (\<forall>k<length (stack d). is_ref d ! k \<longrightarrow> is_heap (stack d ! k)) \<longrightarrow>
      Deserializer_dtor d =
        Inr (map fst (filter snd (zip (stack d) (is_ref d))),
             live d - sum_list (map heap_nodes (map fst (filter snd (zip (stack d) (is_ref d)))))))
   \<and> (\<forall>w p. ValueParser_Parse fuel vm typeoff (ValueParser_init inp) = Inr (w, p) \<longrightarrow>
         (\<exists>p1 p2. ParseFactor fuel vm typeoff True (ValueParser_init inp) = Inr p1
                \<and> Expect vm T_ENDOFFILE (Gobble T_LINEFEED p1) = Inr p2 \<and> stack p2 = [w])
         \<and> stack p = [] \<and> is_ref p = [])
   \<and> (\<forall>w e. FlexBufferParser_Parse fuel vm typeoff r Deserializer_init = Inr (w, e) \<longrightarrow>
         (\<exists>e1. FlexParseFactor fuel vm r typeoff Deserializer_init = Inr e1 \<and> stack e1 = [w])
         \<and> stack e = [] \<and> is_ref e = [])
   \<and> (\<forall>w e. LobsterBinaryParser_Parse fuel vm typeoff data Deserializer_init = Inr (w, e) \<longrightarrow>
         (\<exists>data1 e1. ParseElem fuel vm typeoff (data, Deserializer_init) = Inr (data1, e1)
                \<and> stack e1 = [w])
         \<and> stack e = [] \<and> is_ref e = [])
   \<and> (\<forall>a p. ValueParser_Parse fuel vm typeoff (ValueParser_init inp) = Inl (a, p) \<longrightarrow>
         is_ref p = map is_heap (stack p)
         \<and> Deserializer_dtor (allocated p) =
             Inr (filter is_heap (stack p), Suc (live p) - sum_list (map heap_nodes (stack p))))
   \<and> (\<forall>a e. FlexBufferParser_Parse fuel vm typeoff r Deserializer_init = Inl (a, e) \<longrightarrow>
         is_ref e = map is_heap (stack e)
         \<and> Deserializer_dtor (allocated e) =
             Inr (filter is_heap (stack e), Suc (live e) - sum_list (map heap_nodes (stack e))))
   \<and> (\<forall>a e. LobsterBinaryParser_Parse fuel vm typeoff data Deserializer_init = Inl (a, e) \<longrightarrow>
         is_ref e = map is_heap (stack e)
         \<and> Deserializer_dtor (allocated e) =
             Inr (filter is_heap (stack e), Suc (live e) - sum_list (map heap_nodes (stack e))))"
  (is "?ops \<and> ?dtor \<and> ?t1 \<and> ?f1 \<and> ?b1 \<and> ?t2 \<and> ?f2 \<and> ?b2")
proof -
  have ops: ?ops
    using stack_ops_keep_length [of d] by blast
  have dtor: ?dtor
    using Deserializer_dtor_flagged [of d] by blast
  have t1: ?t1
    using ValueParser_Parse_cases [of fuel vm typeoff inp] by auto
  have f1: ?f1
    using FlexBufferParser_Parse_cases [of fuel vm typeoff r] by auto
  have b1: ?b1
    using LobsterBinaryParser_Parse_cases [of fuel vm typeoff data] by auto
  have t2: ?t2
  proof (intro allI impI)
    fix a p assume "ValueParser_Parse fuel vm typeoff (ValueParser_init inp) = Inl (a, p)"
    then have "flags_ok p" using ValueParser_Parse_cases [of fuel vm typeoff inp] by auto
    then show "is_ref p = map is_heap (stack p)
         \<and> Deserializer_dtor (allocated p) =
             Inr (filter is_heap (stack p), Suc (live p) - sum_list (map heap_nodes (stack p)))"
      by (rule dtor_after_abort)
  qed
  have f2: ?f2
  proof (intro allI impI)
    fix a e assume "FlexBufferParser_Parse fuel vm typeoff r Deserializer_init = Inl (a, e)"
    then have "flags_ok e" using FlexBufferParser_Parse_cases [of fuel vm typeoff r] by auto
    then show "is_ref e = map is_heap (stack e)
         \<and> Deserializer_dtor (allocated e) =
             Inr (filter is_heap (stack e), Suc (live e) - sum_list (map heap_nodes (stack e)))"
      by (rule dtor_after_abort)
  qed
  have b2: ?b2
  proof (intro allI impI)
    fix a e assume "LobsterBinaryParser_Parse fuel vm typeoff data Deserializer_init = Inl (a, e)"
    then have "flags_ok e" using LobsterBinaryParser_Parse_cases [of fuel vm typeoff data] by auto
    then show "is_ref e = map is_heap (stack e)
         \<and> Deserializer_dtor (allocated e) =
             Inr (filter is_heap (stack e), Suc (live e) - sum_list (map heap_nodes (stack e)))"
      by (rule dtor_after_abort)
  qed
  from ops dtor t1 f1 b1 t2 f2 b2 show ?thesis by (intro conjI)
qed

theorem scratch_stack_balanced_witness:
  "length (is_ref (PushV (VInt 0) False \<lparr>stack = [VString ''a''], is_ref = [True], live = 1\<rparr>))
     = length (stack (PushV (VInt 0) False \<lparr>stack = [VString ''a''], is_ref = [True], live = 1\<rparr>))
   \<and> Deserializer_dtor \<lparr>stack = [VString ''a''], is_ref = [True], live = 1\<rparr>
       = Inr ([VString ''a''], 0)
   \<and> LobsterBinaryParser_Parse 5 ex_vm 26 [CHR 0x02, CHR 0x02, CHR 0x01, CHR 0x61]
         Deserializer_init
       = Inl (Fatal ''lobster_binary_to_value: extra fields presents in Dog'',
              \<lparr>stack = [VString ''a''], is_ref = [True], live = 1\<rparr>)
   \<and> Deserializer_dtor (allocated \<lparr>stack = [VString ''a''], is_ref = [True], live = 1\<rparr>)
       = Inr ([VString ''a''], 1)"
proof -
  let ?d = "\<lparr>stack = [VString ''a''], is_ref = [True], live = 1\<rparr>"
  let ?data = "[CHR 0x02, CHR 0x02, CHR 0x01, CHR 0x61]"
  have run: "LobsterBinaryParser_Parse 5 ex_vm 26 ?data Deserializer_init
       = Inl (Fatal ''lobster_binary_to_value: extra fields presents in Dog'', ?d)"
    by code_simp
  note t = scratch_stack_balanced [where d = ?d and v = "VInt 0" and ir = False and n = 1
      and fuel = 5 and vm = ex_vm and typeoff = 26 and data = ?data]
  have len: "length (is_ref ?d) = length (stack ?d)" by simp
  have fl: "\<forall>k<length (stack ?d). is_ref ?d ! k \<longrightarrow> is_heap (stack ?d ! k)" by simp
  have 1: "length (is_ref (PushV (VInt 0) False ?d)) = length (stack (PushV (VInt 0) False ?d))"
    using t [THEN conjunct1] len by simp
  have 2: "Deserializer_dtor ?d = Inr ([VString ''a''], 0)"
    using t [THEN conjunct2, THEN conjunct1] len fl by simp
  have 3: "Deserializer_dtor (allocated ?d) = Inr ([VString ''a''], 1)"
    using t [THEN conjunct2, THEN conjunct2, THEN conjunct2, THEN conjunct2, THEN conjunct2,
             THEN conjunct2, THEN conjunct2] run by simp
  from 1 2 run 3 show ?thesis by (intro conjI)
qed

end
